theory Spec2Isabelle
  imports Main "HOL-Library.Word" "HOL-Library.Multiset"
begin

unbundle bit_operations_syntax

section \<open>The string table (src/objects/string-table.cc)\<close>

subsection \<open>Capacity policy\<close>

text \<open>
  The C++ type \<open>int\<close> is modelled by \<open>int\<close>. The table invariant below bounds every
  capacity by \<open>2 ^ 30\<close>, and the theorems about resizing take a table of fewer than
  \<open>2 ^ 29\<close> strings, so that none of the computations of this section leaves the range
  of a 32-bit signed integer. \<open>cdiv\<close> is the division of C++ (truncation
  towards zero).
\<close>

definition cdiv :: "int \<Rightarrow> int \<Rightarrow> int" where
  "cdiv a b = sgn a * sgn b * (\<bar>a\<bar> div \<bar>b\<bar>)"

definition kStringTableMaxEmptyFactor :: int where
  "kStringTableMaxEmptyFactor = 4"

definition kStringTableMinCapacity :: int where
  "kStringTableMinCapacity = 2048"

definition StringTableHasSufficientCapacityToAdd :: "int \<Rightarrow> int \<Rightarrow> int \<Rightarrow> int \<Rightarrow> bool" where
  "StringTableHasSufficientCapacityToAdd capacity number_of_elements
       number_of_deleted_elements number_of_additional_elements =
     (let nof = number_of_elements + number_of_additional_elements in
      if nof < capacity \<and> number_of_deleted_elements \<le> cdiv (capacity - nof) 2
      then (let needed_free = cdiv nof 2 in
            if nof + needed_free \<le> capacity then True else False)
      else False)"

text \<open>
  Modelled from the spec: \<open>base::bits::RoundUpToPowerOfTwo32\<close> (src/base/bits.h is not
  among the sources). The spec asks for a capacity that is a power of two; the function is
  the least power of two that is at least its argument, computed by doubling from 1.
\<close>

function RoundUpFrom :: "nat \<Rightarrow> nat \<Rightarrow> nat" where
  "RoundUpFrom p v = (if 0 < p \<and> p < v then RoundUpFrom (2 * p) v else p)"
  by pat_completeness auto
termination
  by (relation "measure (\<lambda>(p, v). v - p)") auto

declare RoundUpFrom.simps [simp del]

definition RoundUpToPowerOfTwo32 :: "nat \<Rightarrow> nat" where
  "RoundUpToPowerOfTwo32 v = RoundUpFrom 1 v"

definition ComputeStringTableCapacity :: "int \<Rightarrow> int" where
  "ComputeStringTableCapacity at_least_space_for =
     (let raw_capacity = at_least_space_for + at_least_space_for div 2;
          capacity = int (RoundUpToPowerOfTwo32 (nat raw_capacity))
      in max capacity kStringTableMinCapacity)"

definition ComputeStringTableCapacityWithShrink :: "int \<Rightarrow> int \<Rightarrow> int" where
  "ComputeStringTableCapacityWithShrink current_capacity at_least_room_for =
     (if at_least_room_for > cdiv current_capacity kStringTableMaxEmptyFactor
      then current_capacity
      else (let new_capacity = ComputeStringTableCapacity at_least_room_for in
            if new_capacity < kStringTableMinCapacity then current_capacity
            else new_capacity))"

subsection \<open>Strings, keys and one table generation\<close>

text \<open>
  A heap string is identified by its address \<open>ptr\<close>; two handles are pointer-identical
  when the records are equal. \<open>hash\<close> is what \<open>String::hash()\<close> returns and \<open>chars\<close> the
  character content.
\<close>

record HeapString =
  ptr :: nat
  hash :: "32 word"
  chars :: "nat list"

text \<open>Smi 0 and Smi 1 are the empty and the deleted sentinel; any other slot is a string.\<close>

datatype element = empty_element | deleted_element | Str HeapString

text \<open>
  A \<open>StringTableKey\<close>: its hash, its length, the content \<open>IsMatch\<close> compares with, and
  the string that \<open>GetHandleForInsertion\<close> hands out after \<open>PrepareForInsertion\<close>.
\<close>

record StringTableKey =
  key_hash :: "32 word"
  key_length :: nat
  key_chars :: "nat list"
  key_string :: HeapString

definition IsMatch :: "StringTableKey \<Rightarrow> HeapString \<Rightarrow> bool" where
  "IsMatch key string = (key_chars key = chars string)"

definition KeyIsMatch :: "StringTableKey \<Rightarrow> HeapString \<Rightarrow> bool" where
  "KeyIsMatch key string =
     (if hash string \<noteq> key_hash key then False
      else if length (chars string) \<noteq> key_length key then False
      else IsMatch key string)"

datatype InternalIndex = Entry "32 word" | NotFound

datatype Data = Data
  (previous_data: "Data option")
  (number_of_elements: int)
  (number_of_deleted_elements: int)
  (capacity: int)
  (elements: "element list")

definition capacity32 :: "Data \<Rightarrow> 32 word" where
  "capacity32 d = word_of_int (capacity d)"

definition New :: "int \<Rightarrow> Data" where
  "New cap = Data None 0 0 cap (replicate (nat cap) empty_element)"

text \<open>Reading a slot outside the array has no defined result.\<close>

definition Get :: "Data \<Rightarrow> 32 word \<Rightarrow> element option" where
  "Get d index =
     (if unat index < length (elements d) then Some (elements d ! unat index) else None)"

definition Set :: "Data \<Rightarrow> 32 word \<Rightarrow> HeapString \<Rightarrow> Data" where
  "Set d index entry =
     Data (previous_data d) (number_of_elements d) (number_of_deleted_elements d)
       (capacity d) ((elements d)[unat index := Str entry])"

definition ElementAdded :: "Data \<Rightarrow> Data" where
  "ElementAdded d =
     Data (previous_data d) (number_of_elements d + 1) (number_of_deleted_elements d)
       (capacity d) (elements d)"

definition DeletedElementOverwritten :: "Data \<Rightarrow> Data" where
  "DeletedElementOverwritten d =
     Data (previous_data d) (number_of_elements d + 1) (number_of_deleted_elements d - 1)
       (capacity d) (elements d)"

subsection \<open>Probing\<close>

definition FirstProbe :: "32 word \<Rightarrow> 32 word \<Rightarrow> 32 word" where
  "FirstProbe h sz = h AND (sz - 1)"

definition NextProbe :: "32 word \<Rightarrow> 32 word \<Rightarrow> 32 word \<Rightarrow> 32 word" where
  "NextProbe last_entry number sz = (last_entry + number) AND (sz - 1)"

text \<open>
  The three loops share the header
  \<open>for (entry = FirstProbe(hash, capacity_);; entry = NextProbe(entry, count++, capacity_))\<close>
  with \<open>count\<close> starting at 1. Each loop is a recursive function of \<open>entry\<close> and
  of the counter (\<open>number\<close>, as \<open>NextProbe\<close> calls it); a loop that runs forever has the value \<open>None\<close>.
\<close>

partial_function (option) FindEntry_loop ::
  "Data \<Rightarrow> StringTableKey \<Rightarrow> 32 word \<Rightarrow> 32 word \<Rightarrow> InternalIndex option" where
  "FindEntry_loop d key entry number =
     (case Get d entry of
        None \<Rightarrow> None
      | Some empty_element \<Rightarrow> Some NotFound
      | Some deleted_element \<Rightarrow>
          FindEntry_loop d key (NextProbe entry number (capacity32 d)) (number + 1)
      | Some (Str string) \<Rightarrow>
          if KeyIsMatch key string then Some (Entry entry)
          else FindEntry_loop d key (NextProbe entry number (capacity32 d)) (number + 1))"

definition FindEntry :: "Data \<Rightarrow> StringTableKey \<Rightarrow> 32 word \<Rightarrow> InternalIndex option" where
  "FindEntry d key h = FindEntry_loop d key (FirstProbe h (capacity32 d)) 1"

partial_function (option) FindInsertionEntry_loop ::
  "Data \<Rightarrow> 32 word \<Rightarrow> 32 word \<Rightarrow> InternalIndex option" where
  "FindInsertionEntry_loop d entry number =
     (case Get d entry of
        None \<Rightarrow> None
      | Some (Str string) \<Rightarrow>
          FindInsertionEntry_loop d (NextProbe entry number (capacity32 d)) (number + 1)
      | Some _ \<Rightarrow> Some (Entry entry))"

definition FindInsertionEntry :: "Data \<Rightarrow> 32 word \<Rightarrow> InternalIndex option" where
  "FindInsertionEntry d h = FindInsertionEntry_loop d (FirstProbe h (capacity32 d)) 1"

partial_function (option) FindEntryOrInsertionEntry_loop ::
  "Data \<Rightarrow> StringTableKey \<Rightarrow> InternalIndex \<Rightarrow> 32 word \<Rightarrow> 32 word \<Rightarrow> InternalIndex option"
  where
  "FindEntryOrInsertionEntry_loop d key insertion_entry entry number =
     (case Get d entry of
        None \<Rightarrow> None
      | Some empty_element \<Rightarrow>
          if insertion_entry = NotFound then Some (Entry entry) else Some insertion_entry
      | Some deleted_element \<Rightarrow>
          FindEntryOrInsertionEntry_loop d key
            (if insertion_entry = NotFound then Entry entry else insertion_entry)
            (NextProbe entry number (capacity32 d)) (number + 1)
      | Some (Str string) \<Rightarrow>
          if KeyIsMatch key string then Some (Entry entry)
          else FindEntryOrInsertionEntry_loop d key insertion_entry
                 (NextProbe entry number (capacity32 d)) (number + 1))"

definition FindEntryOrInsertionEntry ::
  "Data \<Rightarrow> StringTableKey \<Rightarrow> 32 word \<Rightarrow> InternalIndex option" where
  "FindEntryOrInsertionEntry d key h =
     FindEntryOrInsertionEntry_loop d key NotFound (FirstProbe h (capacity32 d)) 1"

text \<open>The slot inspected at the \<open>n\<close>-th turn of such a loop (\<open>n = 0\<close> is the first probe).\<close>

fun probe :: "32 word \<Rightarrow> 32 word \<Rightarrow> nat \<Rightarrow> 32 word" where
  "probe h sz 0 = FirstProbe h sz"
| "probe h sz (Suc n) = NextProbe (probe h sz n) (of_nat (Suc n)) sz"

subsection \<open>Resize, EnsureCapacity and LookupKey\<close>

text \<open>
  The rehash loop of \<open>Data::Resize\<close> walks the indices of the old generation in
  increasing order; every string is written into the new generation at the slot that
  \<open>FindInsertionEntry\<close> returns for its hash.
\<close>

fun Resize_rehash :: "Data \<Rightarrow> nat list \<Rightarrow> Data \<Rightarrow> Data option" where
  "Resize_rehash data [] new_data = Some new_data"
| "Resize_rehash data (i # rest) new_data =
     (case Get data (of_nat i) of
        None \<Rightarrow> None
      | Some (Str string) \<Rightarrow>
          (case FindInsertionEntry new_data (hash string) of
             Some (Entry insertion_index) \<Rightarrow>
               Resize_rehash data rest (Set new_data insertion_index string)
           | _ \<Rightarrow> None)
      | Some _ \<Rightarrow> Resize_rehash data rest new_data)"

definition Resize :: "Data \<Rightarrow> int \<Rightarrow> Data option" where
  "Resize data cap =
     (case Resize_rehash data [0..<nat (capacity data)] (New cap) of
        None \<Rightarrow> None
      | Some new_data \<Rightarrow>
          Some (Data (Some data) (number_of_elements data)
                  (number_of_deleted_elements new_data) (capacity new_data)
                  (elements new_data)))"

text \<open>
  The table is its current generation (\<open>data_\<close>); the calls are sequential, so the write
  mutex and the memory orders of the loads and stores play no part.
\<close>

definition EnsureCapacity :: "Data \<Rightarrow> int \<Rightarrow> Data option" where
  "EnsureCapacity data additional_elements =
     (let current_capacity = capacity data;
          current_nof = number_of_elements data;
          capacity_after_shrinking =
            ComputeStringTableCapacityWithShrink current_capacity (current_nof + 1);
          new_capacity =
            (if capacity_after_shrinking < current_capacity then capacity_after_shrinking
             else if \<not> StringTableHasSufficientCapacityToAdd current_capacity current_nof
                         (number_of_deleted_elements data) 1
             then ComputeStringTableCapacity (current_nof + 1)
             else - 1)
      in if new_capacity \<noteq> - 1 then Resize data new_capacity else Some data)"

definition LookupKey :: "Data \<Rightarrow> StringTableKey \<Rightarrow> (HeapString \<times> Data) option" where
  "LookupKey current_data key =
     (case FindEntry current_data key (key_hash key) of
        None \<Rightarrow> None
      | Some (Entry entry) \<Rightarrow>
          (case Get current_data entry of
             Some (Str result) \<Rightarrow> Some (result, current_data)
           | _ \<Rightarrow> None)
      | Some NotFound \<Rightarrow>
          (case EnsureCapacity current_data 1 of
             None \<Rightarrow> None
           | Some data \<Rightarrow>
               (case FindEntryOrInsertionEntry data key (key_hash key) of
                  Some (Entry entry) \<Rightarrow>
                    (case Get data entry of
                       None \<Rightarrow> None
                     | Some empty_element \<Rightarrow>
                         (let new_string = key_string key in
                          Some (new_string, ElementAdded (Set data entry new_string)))
                     | Some deleted_element \<Rightarrow>
                         (let new_string = key_string key in
                          Some (new_string,
                                DeletedElementOverwritten (Set data entry new_string)))
                     | Some (Str element) \<Rightarrow> Some (element, data))
                | _ \<Rightarrow> None)))"

subsection \<open>Well-formed generations and keys\<close>

definition is_string :: "element \<Rightarrow> bool" where
  "is_string e = (case e of Str s \<Rightarrow> True | _ \<Rightarrow> False)"

definition strings_of :: "element list \<Rightarrow> HeapString list" where
  "strings_of es = concat (map (\<lambda>e. case e of Str s \<Rightarrow> [s] | _ \<Rightarrow> []) es)"

definition is_power_of_two :: "int \<Rightarrow> bool" where
  "is_power_of_two c = (c \<in> (\<lambda>k. 2 ^ k) ` {0..<31::nat})"

text \<open>
  What the fields of a generation mean: the capacity is a power of two (at most \<open>2 ^ 30\<close>)
  and the length of the slot array, the two counters count the strings and the deleted
  sentinels, and one slot at least is empty.
\<close>

definition data_shape :: "Data \<Rightarrow> bool" where
  "data_shape d =
     (is_power_of_two (capacity d) \<and> length (elements d) = nat (capacity d))"

definition data_inv :: "Data \<Rightarrow> bool" where
  "data_inv d =
     (data_shape d \<and>
      number_of_elements d = int (length (filter is_string (elements d))) \<and>
      number_of_deleted_elements d =
        int (length (filter (\<lambda>e. e = deleted_element) (elements d))) \<and>
      number_of_elements d + number_of_deleted_elements d < capacity d)"


text \<open>The key that looks an interned string up again.\<close>

definition key_of :: "HeapString \<Rightarrow> StringTableKey" where
  "key_of s = \<lparr>key_hash = hash s, key_length = length (chars s), key_chars = chars s,
               key_string = s\<rparr>"

text \<open>The \<open>n\<close>-th triangular number: the sum of the probe steps \<open>1, 2, \<dots>, n\<close>.\<close>

definition tri :: "nat \<Rightarrow> nat" where
  "tri n = n * (n + 1) div 2"

text \<open>The content of the slot inspected at the \<open>n\<close>-th turn.\<close>

definition slot_at :: "Data \<Rightarrow> 32 word \<Rightarrow> nat \<Rightarrow> element" where
  "slot_at d h n = elements d ! unat (probe h (capacity32 d) n)"

text \<open>A slot that \<open>FindEntry\<close> passes over: a deleted sentinel or a string that does not
  match the key.\<close>

definition passed :: "StringTableKey \<Rightarrow> element \<Rightarrow> bool" where
  "passed key e =
     (case e of empty_element \<Rightarrow> False | deleted_element \<Rightarrow> True
      | Str s \<Rightarrow> \<not> KeyIsMatch key s)"

text \<open>
  Every string of the table lies on the probe path of its own hash, with strings only in
  the slots the path visits before it.
\<close>

definition reachable :: "Data \<Rightarrow> bool" where
  "reachable d =
     (\<forall>i<length (elements d). \<forall>s. elements d ! i = Str s \<longrightarrow>
        (\<exists>n. unat (probe (hash s) (capacity32 d) n) = i \<and>
             (\<forall>j<n. is_string (slot_at d (hash s) j))))"

subsection \<open>Two concrete tables\<close>

text \<open>
  A generation of capacity 4096 that holds 2730 strings, the string of hash \<open>i\<close> in slot
  \<open>i\<close>, and a key for a string that is not in it.
\<close>

definition table_2730 :: Data where
  "table_2730 = Data None 2730 0 4096
     (map (\<lambda>i. Str \<lparr>ptr = i, hash = of_nat i, chars = [i]\<rparr>) [0..<2730] @
      replicate 1366 empty_element)"

definition key_2730 :: StringTableKey where
  "key_2730 = \<lparr>key_hash = 2730, key_length = 1, key_chars = [2730],
     key_string = \<lparr>ptr = 5000, hash = 2730, chars = [2730]\<rparr>\<rparr>"


definition table_one :: Data where
  "table_one = Data None 1 0 2048
     (replicate 7 empty_element @ [Str \<lparr>ptr = 100, hash = 7, chars = [102, 111, 111]\<rparr>] @
      replicate 2040 empty_element)"

section \<open>The register allocator (src/maglev/maglev-regalloc.cc)\<close>

subsection \<open>Values, register files and spill slots\<close>

text \<open>
  Modelled from the spec: the declarations of \<open>ValueNode\<close>, \<open>LiveRange\<close>,
  \<open>RegisterFrameState\<close>, \<open>SpillSlotInfo\<close> and \<open>SpillSlots\<close> (src/maglev/maglev-ir.h and
  src/maglev/maglev-regalloc.h are not among the sources). A value has an id, a live range,
  a next-use position, the set of registers that hold it and a spill slot or a constant
  location; a register file has, for one register class, the set of free registers among
  the allocatable ones and the occupant of every register, which is a value or the
  sentinel of a blocked register; a spill-slot stack has a top counter and a free list of
  pairs of a slot index and the position at which the slot was freed.
\<close>

datatype AllocationStage = kAtStart | kAtEnd

record LiveRange =
  range_start :: nat
  range_end :: nat

text \<open>The policies of an \<open>UnallocatedOperand\<close> (basic and extended policy in one type).\<close>

datatype Policy =
    FIXED_SLOT int
  | NONE
  | REGISTER_OR_SLOT
  | REGISTER_OR_SLOT_OR_CONSTANT
  | FIXED_REGISTER nat
  | FIXED_FP_REGISTER nat
  | MUST_HAVE_REGISTER
  | MUST_HAVE_SLOT
  | SAME_AS_INPUT nat

datatype Operand =
    Invalid
  | Unallocated Policy
  | Register nat
  | DoubleRegister nat
  | StackSlot bool int
  | Constant

text \<open>
  \<open>StackSlot tagged index\<close> is a stack slot of machine representation \<open>kTagged\<close> when
  \<open>tagged\<close> holds. A \<open>ValueNode*\<close> is the address of the value in the store \<open>nodes\<close>.
\<close>

record ValueNode =
  node_id :: nat
  live_range :: LiveRange
  next_use :: nat
  is_tagged :: bool
  use_double_register :: bool
  result_registers :: "nat set"
  spill_or_hint :: Operand



definition has_register :: "ValueNode \<Rightarrow> bool" where
  "has_register node = (result_registers node \<noteq> {})"

definition num_registers :: "ValueNode \<Rightarrow> nat" where
  "num_registers node = card (result_registers node)"

definition is_spilled :: "ValueNode \<Rightarrow> bool" where
  "is_spilled node = (case spill_or_hint node of StackSlot t i \<Rightarrow> True | _ \<Rightarrow> False)"

definition is_loadable :: "ValueNode \<Rightarrow> bool" where
  "is_loadable node =
     (case spill_or_hint node of StackSlot t i \<Rightarrow> True | Constant \<Rightarrow> True | _ \<Rightarrow> False)"

record SpillSlotInfo =
  slot_index :: nat
  freed_at_position :: nat

record SpillSlots =
  slot_top :: nat
  free_slots :: "SpillSlotInfo list"

datatype RegisterValue = kBlockedRegisterSentinel | Node nat

record RegisterFrameState =
  allocatable :: "nat set"
  free :: "nat set"
  register_values :: "nat \<Rightarrow> RegisterValue"

definition used :: "RegisterFrameState \<Rightarrow> nat set" where
  "used registers = allocatable registers - free registers"

definition FreeIsEmpty :: "RegisterFrameState \<Rightarrow> bool" where
  "FreeIsEmpty registers = (free registers = {})"

definition GetValue :: "RegisterFrameState \<Rightarrow> nat \<Rightarrow> RegisterValue" where
  "GetValue registers reg = register_values registers reg"

text \<open>
  The allocator: the two register files, the two spill-slot stacks, the values of the
  graph, the id of \<open>current_node_\<close> and the gap moves emitted so far.
\<close>

record Allocator =
  general_registers :: RegisterFrameState
  double_registers :: RegisterFrameState
  tagged :: SpillSlots
  untagged :: SpillSlots
  nodes :: "nat \<Rightarrow> ValueNode"
  current_node :: nat
  gap_moves :: "(nat \<times> Operand \<times> Operand) list"

text \<open>The template parameter \<open>RegisterT\<close> selects one of the two register files.\<close>

datatype RegisterT = GeneralRegisterT | DoubleRegisterT

definition registers_of :: "RegisterT \<Rightarrow> Allocator \<Rightarrow> RegisterFrameState" where
  "registers_of c a =
     (case c of GeneralRegisterT \<Rightarrow> general_registers a | DoubleRegisterT \<Rightarrow> double_registers a)"

definition with_registers :: "RegisterT \<Rightarrow> RegisterFrameState \<Rightarrow> Allocator \<Rightarrow> Allocator" where
  "with_registers c registers a =
     (case c of GeneralRegisterT \<Rightarrow> a\<lparr>general_registers := registers\<rparr>
      | DoubleRegisterT \<Rightarrow> a\<lparr>double_registers := registers\<rparr>)"

definition AddToFree :: "RegisterT \<Rightarrow> nat \<Rightarrow> Allocator \<Rightarrow> Allocator" where
  "AddToFree c reg a =
     with_registers c ((registers_of c a)\<lparr>free := insert reg (free (registers_of c a))\<rparr>) a"

definition RemoveFromFree :: "RegisterT \<Rightarrow> nat \<Rightarrow> Allocator \<Rightarrow> Allocator" where
  "RemoveFromFree c reg a =
     with_registers c ((registers_of c a)\<lparr>free := free (registers_of c a) - {reg}\<rparr>) a"

definition SetSentinelValue :: "RegisterT \<Rightarrow> nat \<Rightarrow> RegisterValue \<Rightarrow> Allocator \<Rightarrow> Allocator" where
  "SetSentinelValue c reg v a =
     with_registers c ((registers_of c a)\<lparr>register_values := (register_values (registers_of c a))(reg := v)\<rparr>) a"

definition AddRegister :: "nat \<Rightarrow> nat \<Rightarrow> Allocator \<Rightarrow> Allocator" where
  "AddRegister node reg a =
     a\<lparr>nodes := (nodes a)(node := (nodes a node)\<lparr>result_registers := insert reg (result_registers (nodes a node))\<rparr>)\<rparr>"

definition RemoveRegister :: "nat \<Rightarrow> nat \<Rightarrow> Allocator \<Rightarrow> Allocator" where
  "RemoveRegister node reg a =
     a\<lparr>nodes := (nodes a)(node := (nodes a node)\<lparr>result_registers := result_registers (nodes a node) - {reg}\<rparr>)\<rparr>"

definition SetValue :: "RegisterT \<Rightarrow> nat \<Rightarrow> nat \<Rightarrow> Allocator \<Rightarrow> Allocator" where
  "SetValue c reg node a = AddRegister node reg (SetSentinelValue c reg (Node node) a)"

definition TakeFirstFree :: "RegisterT \<Rightarrow> Allocator \<Rightarrow> nat \<times> Allocator" where
  "TakeFirstFree c a =
     (let reg = Min (free (registers_of c a)) in (reg, RemoveFromFree c reg a))"



subsection \<open>Spill slots\<close>

text \<open>
  \<open>std::upper_bound\<close> of the C++ standard library, as libc++ and libstdc++ implement it:
  the halving loop over the range \<open>[first, first + len)\<close> that returns the position it
  narrows down to. \<open>cmp value element\<close> is the comparison \<open>comp\<close> that the caller passes.
\<close>

function upper_bound_loop :: "('v \<Rightarrow> 'e \<Rightarrow> bool) \<Rightarrow> 'v \<Rightarrow> 'e list \<Rightarrow> nat \<Rightarrow> nat \<Rightarrow> nat" where
  "upper_bound_loop cmp v xs first len =
     (if 0 < len then
        (let half = len div 2; middle = first + half in
         if cmp v (xs ! middle) then upper_bound_loop cmp v xs first half
         else upper_bound_loop cmp v xs (middle + 1) (len - half - 1))
      else first)"
  by pat_completeness auto
termination
  by (relation "measure (\<lambda>(cmp, v, xs, first, len). len)") auto

declare upper_bound_loop.simps [simp del]

definition upper_bound :: "('v \<Rightarrow> 'e \<Rightarrow> bool) \<Rightarrow> 'v \<Rightarrow> 'e list \<Rightarrow> nat" where
  "upper_bound cmp v xs = upper_bound_loop cmp v xs 0 (length xs)"

text \<open>
  The part of \<open>AllocateSpillSlot\<close> that works on the chosen stack \<open>slots\<close>: it returns
  \<open>free_slot\<close> and the stack as it is left. \<open>erase(it)\<close> removes the entry at \<open>it\<close>.
\<close>

definition AllocateSpillSlot_in :: "SpillSlots \<Rightarrow> nat \<Rightarrow> nat \<times> SpillSlots" where
  "AllocateSpillSlot_in slots start =
     (if free_slots slots = [] then (slot_top slots, slots\<lparr>slot_top := slot_top slots + 1\<rparr>)
      else
        (let it = upper_bound (\<lambda>s slot_info. freed_at_position slot_info < s) start
                    (free_slots slots)
         in if it \<noteq> length (free_slots slots)
            then (slot_index (free_slots slots ! it),
                  slots\<lparr>free_slots := take it (free_slots slots) @ drop (Suc it) (free_slots slots)\<rparr>)
            else (slot_top slots, slots\<lparr>slot_top := slot_top slots + 1\<rparr>)))"

text \<open>The stack of the tagged or of the untagged values.\<close>

definition slots_of :: "bool \<Rightarrow> Allocator \<Rightarrow> SpillSlots" where
  "slots_of tg a = (if tg then tagged a else untagged a)"

definition AllocateSpillSlot :: "nat \<Rightarrow> Allocator \<Rightarrow> Allocator" where
  "AllocateSpillSlot node a =
     (let is_tagged = is_tagged (nodes a node);
          slots = (if is_tagged then tagged a else untagged a);
          (free_slot, slots') = AllocateSpillSlot_in slots (range_start (live_range (nodes a node)));
          a1 = (if is_tagged then a\<lparr>tagged := slots'\<rparr> else a\<lparr>untagged := slots'\<rparr>)
      in a1\<lparr>nodes := (nodes a1)(node :=
              (nodes a1 node)\<lparr>spill_or_hint := StackSlot is_tagged (int free_slot)\<rparr>)\<rparr>)"

definition Spill :: "nat \<Rightarrow> Allocator \<Rightarrow> Allocator" where
  "Spill node a = (if is_loadable (nodes a node) then a else AllocateSpillSlot node a)"


subsection \<open>Freeing and allocating registers\<close>

text \<open>
  The functions of this section return \<open>None\<close> where the C++ code has no defined
  behaviour: a \<open>DCHECK\<close> that release builds do not execute is violated and the code goes
  on to dereference the sentinel, to use \<open>no_reg\<close> or to cast an operand to a kind it does
  not have, or it reaches \<open>UNREACHABLE()\<close>.
\<close>

definition AddMoveBeforeCurrentNode :: "nat \<Rightarrow> Operand \<Rightarrow> Operand \<Rightarrow> Allocator \<Rightarrow> Allocator" where
  "AddMoveBeforeCurrentNode node source target a =
     a\<lparr>gap_moves := gap_moves a @ [(node, source, target)]\<rparr>"

definition register_operand :: "RegisterT \<Rightarrow> nat \<Rightarrow> Operand" where
  "register_operand c reg =
     (case c of GeneralRegisterT \<Rightarrow> Register reg | DoubleRegisterT \<Rightarrow> DoubleRegister reg)"

definition DropRegisterValue ::
  "RegisterT \<Rightarrow> nat \<Rightarrow> AllocationStage \<Rightarrow> Allocator \<Rightarrow> Allocator option" where
  "DropRegisterValue c reg stage a =
     (case GetValue (registers_of c a) reg of
        kBlockedRegisterSentinel \<Rightarrow> None
      | Node node \<Rightarrow>
          (let a1 = RemoveRegister node reg a in
           if has_register (nodes a1 node) \<or> is_loadable (nodes a1 node) then Some a1
           else if stage = kAtEnd \<and> range_end (live_range (nodes a1 node)) = current_node a1
           then Some a1
           else if \<not> FreeIsEmpty (registers_of c a1) then
             (let (target_reg, a2) = TakeFirstFree c a1;
                  a3 = SetValue c target_reg node a2
              in Some (AddMoveBeforeCurrentNode node (register_operand c reg)
                         (register_operand c target_reg) a3))
           else Some (Spill node a1)))"

text \<open>
  The loop of \<open>FreeSomeRegister\<close> over \<open>registers.used()\<close>, in the order of the register
  codes; \<open>best\<close> is \<open>None\<close> for \<open>no_reg\<close>.
\<close>

fun FreeSomeRegister_loop ::
  "Allocator \<Rightarrow> RegisterFrameState \<Rightarrow> AllocationStage \<Rightarrow> nat list \<Rightarrow> int \<Rightarrow> nat option
     \<Rightarrow> nat option" where
  "FreeSomeRegister_loop a registers stage [] furthest_use best = best"
| "FreeSomeRegister_loop a registers stage (reg # rest) furthest_use best =
     (case GetValue registers reg of
        kBlockedRegisterSentinel \<Rightarrow>
          FreeSomeRegister_loop a registers stage rest furthest_use best
      | Node v \<Rightarrow>
          (let value = nodes a v in
           if stage = kAtEnd \<and> range_end (live_range value) = current_node a then Some reg
           else if num_registers value > 1 then Some reg
           else
             (let use = int (next_use value) in
              if use > furthest_use
              then FreeSomeRegister_loop a registers stage rest use (Some reg)
              else FreeSomeRegister_loop a registers stage rest furthest_use best)))"

text \<open>
  The two tests that end the loop at once: the value of the register dies at the current
  node and the stage is \<open>kAtEnd\<close>, or the value is in more than one register. A blocked
  register passes neither. \<open>candidate_use\<close> is the next use of the value of a register
  that is not blocked.
\<close>

definition dies_at_current :: "Allocator \<Rightarrow> RegisterFrameState \<Rightarrow> AllocationStage \<Rightarrow> nat \<Rightarrow> bool"
  where
  "dies_at_current a registers stage reg =
     (case GetValue registers reg of
        kBlockedRegisterSentinel \<Rightarrow> False
      | Node v \<Rightarrow> stage = kAtEnd \<and> range_end (live_range (nodes a v)) = current_node a)"

definition in_several_registers :: "Allocator \<Rightarrow> RegisterFrameState \<Rightarrow> nat \<Rightarrow> bool" where
  "in_several_registers a registers reg =
     (case GetValue registers reg of
        kBlockedRegisterSentinel \<Rightarrow> False
      | Node v \<Rightarrow> num_registers (nodes a v) > 1)"

definition candidate_use :: "Allocator \<Rightarrow> RegisterFrameState \<Rightarrow> nat \<Rightarrow> int option" where
  "candidate_use a registers reg =
     (case GetValue registers reg of
        kBlockedRegisterSentinel \<Rightarrow> None
      | Node v \<Rightarrow> Some (int (next_use (nodes a v))))"

definition FreeSomeRegister_best :: "RegisterT \<Rightarrow> AllocationStage \<Rightarrow> Allocator \<Rightarrow> nat option" where
  "FreeSomeRegister_best c stage a =
     FreeSomeRegister_loop a (registers_of c a) stage
       (sorted_list_of_set (used (registers_of c a))) 0 None"

definition FreeSomeRegister ::
  "RegisterT \<Rightarrow> AllocationStage \<Rightarrow> Allocator \<Rightarrow> (nat \<times> Allocator) option" where
  "FreeSomeRegister c stage a =
     (case FreeSomeRegister_best c stage a of
        None \<Rightarrow> None
      | Some best \<Rightarrow>
          (case DropRegisterValue c best stage a of
             None \<Rightarrow> None
           | Some a1 \<Rightarrow> Some (best, AddToFree c best a1)))"






subsection \<open>Spilling and clearing all registers\<close>



subsection \<open>Allocating a node\<close>




















subsection \<open>Consistent register files\<close>





subsection \<open>Concrete allocator states\<close>

text \<open>
  A tagged value with the live range \<open>[start, 9)\<close> that is in no register and has no
  spill slot, and an allocator with two allocatable registers per class, all free, whose
  tagged stack has the top 4 and the given free list.
\<close>

definition value_from :: "nat \<Rightarrow> ValueNode" where
  "value_from start_id =
     \<lparr>node_id = start_id, live_range = \<lparr>range_start = start_id, range_end = 9\<rparr>,
      next_use = 9, is_tagged = True, use_double_register = False, result_registers = {},
      spill_or_hint = Invalid\<rparr>"

definition no_registers_used :: RegisterFrameState where
  "no_registers_used =
     \<lparr>allocatable = {0, 1}, free = {0, 1}, register_values = (\<lambda>reg. kBlockedRegisterSentinel)\<rparr>"

definition allocator_with :: "SpillSlotInfo list \<Rightarrow> nat \<Rightarrow> Allocator" where
  "allocator_with free_list start_id =
     \<lparr>general_registers = no_registers_used, double_registers = no_registers_used,
      tagged = \<lparr>slot_top = 4, free_slots = free_list\<rparr>,
      untagged = \<lparr>slot_top = 0, free_slots = []\<rparr>,
      nodes = (\<lambda>node. value_from start_id), current_node = start_id, gap_moves = []\<rparr>"


text \<open>
  An allocator at node 7 whose three general registers are all in use: registers 0 and 1
  hold the value at address 10, which lives until 50, and register 2 holds the value at
  address 20, whose live range ends at node 7.
\<close>

definition allocator_full :: Allocator where
  "allocator_full =
     \<lparr>general_registers =
        \<lparr>allocatable = {0, 1, 2}, free = {},
         register_values = (\<lambda>reg. Node 10)(2 := Node 20)\<rparr>,
      double_registers = no_registers_used,
      tagged = \<lparr>slot_top = 0, free_slots = []\<rparr>,
      untagged = \<lparr>slot_top = 0, free_slots = []\<rparr>,
      nodes = (\<lambda>node.
          \<lparr>node_id = 1, live_range = \<lparr>range_start = 1, range_end = 50\<rparr>, next_use = 30,
           is_tagged = True, use_double_register = False, result_registers = {0, 1},
           spill_or_hint = Invalid\<rparr>)
        (20 := \<lparr>node_id = 3, live_range = \<lparr>range_start = 3, range_end = 7\<rparr>, next_use = 7,
                is_tagged = True, use_double_register = False, result_registers = {2},
                spill_or_hint = Invalid\<rparr>),
      current_node = 7, gap_moves = []\<rparr>"

text \<open>
  An allocator at node 7 with no free general register, where register 0 holds the value
  at address 10 (next use 30), register 1 the value at address 11 (next use 40) and
  register 2 is blocked; each value is in one register only and lives until 50.
\<close>

definition value_in :: "nat \<Rightarrow> nat \<Rightarrow> ValueNode" where
  "value_in reg use =
     \<lparr>node_id = 1, live_range = \<lparr>range_start = 1, range_end = 50\<rparr>, next_use = use,
      is_tagged = True, use_double_register = False, result_registers = {reg},
      spill_or_hint = Invalid\<rparr>"

definition allocator_plain :: Allocator where
  "allocator_plain =
     \<lparr>general_registers =
        \<lparr>allocatable = {0, 1, 2}, free = {},
         register_values = (\<lambda>reg. kBlockedRegisterSentinel)(0 := Node 10, 1 := Node 11)\<rparr>,
      double_registers = no_registers_used,
      tagged = \<lparr>slot_top = 0, free_slots = []\<rparr>,
      untagged = \<lparr>slot_top = 0, free_slots = []\<rparr>,
      nodes = (\<lambda>node. value_in 0 30)(11 := value_in 1 40),
      current_node = 7, gap_moves = []\<rparr>"



section \<open>Interning a string object (src/objects/string-table.cc)\<close>

subsection \<open>String objects\<close>

text \<open>
  Modelled from the spec: the string objects of the heap (src/objects/string.h,
  src/objects/string-inl.h, src/objects/name.h and src/heap/factory.cc are not among the
  sources). A string object is at an address; it has a shape (sequential, external and
  then cached or uncached, sliced from a parent, the concatenation of a first and a second
  part, or a thin reference to its actual string), a map that is an internalized map or
  not, a place in the shared heap or not, a raw hash field, its characters, and the way it
  can become internalized. The raw hash field is empty, a computed hash, an integer index
  or a forwarding index.
\<close>

datatype StringShape =
  SeqString | ExternalString bool | SlicedString nat | ConsString nat nat | ThinString nat






















subsection \<open>InternalizedStringKey\<close>





subsection \<open>LookupString\<close>



subsection \<open>A concrete heap\<close>



section \<open>Properties of the string table\<close>

subsection \<open>The probe sequence\<close>

lemma unat_and_pow2: "unat ((x::32 word) AND (2 ^ k - 1)) = unat x mod 2 ^ k"
proof -
  have a: "x AND (2 ^ k - 1) = take_bit k x"
    by (simp only: take_bit_eq_mask mask_eq_exp_minus_1)
  have b: "unat (take_bit k x) = take_bit k (unat x)"
    by (rule unsigned_take_bit_eq)
  have c: "take_bit k (unat x) = unat x mod 2 ^ k"
    by (rule take_bit_eq_mod)
  show ?thesis
    by (simp only: a b c)
qed

lemma tri_Suc: "tri (Suc n) = tri n + Suc n"
proof -
  have "Suc n * (Suc n + 1) = n * (n + 1) + 2 * Suc n" by simp
  then show ?thesis
    unfolding tri_def by (metis zero_neq_numeral add.commute div_mult_self2)
qed

lemma unat_plus_of_nat: "unat ((a::32 word) + of_nat m) = (unat a + m) mod 2 ^ 32"
proof -
  have "unat (a + of_nat m) = (unat a + unat (of_nat m :: 32 word)) mod 2 ^ 32"
    by (simp add: unat_word_ariths(1))
  also have "\<dots> = (unat a + m mod 2 ^ 32) mod 2 ^ 32"
    by (simp only: unat_of_nat) simp
  also have "\<dots> = (unat a + m) mod 2 ^ 32"
    by (rule mod_add_right_eq)
  finally show ?thesis .
qed

lemma probe_closed:
  "k \<le> 32 \<Longrightarrow> unat (probe h (2 ^ k) n) = (unat h + tri n) mod 2 ^ k"
proof (induction n)
  case 0
  then show ?case by (simp add: FirstProbe_def unat_and_pow2 tri_def)
next
  case (Suc n)
  have d: "(2::nat) ^ k dvd 2 ^ 32" using Suc.prems by (rule le_imp_power_dvd)
  have "unat (probe h (2 ^ k) (Suc n)) = unat (probe h (2 ^ k) n + of_nat (Suc n)) mod 2 ^ k"
    by (simp only: probe.simps NextProbe_def unat_and_pow2)
  also have "\<dots> = ((unat (probe h (2 ^ k) n) + Suc n) mod 2 ^ 32) mod 2 ^ k"
    by (simp only: unat_plus_of_nat)
  also have "\<dots> = (unat (probe h (2 ^ k) n) + Suc n) mod 2 ^ k"
    using d by (rule mod_mod_cancel)
  also have "\<dots> = ((unat h + tri n) mod 2 ^ k + Suc n) mod 2 ^ k"
    using Suc by simp
  also have "\<dots> = (unat h + (tri n + Suc n)) mod 2 ^ k"
    by (simp only: mod_add_left_eq add.assoc)
  finally show ?case by (simp only: tri_Suc)
qed

text \<open>
  Triangular numbers are pairwise distinct modulo a power of two, so the first
  \<open>2 ^ k\<close> probes visit every slot of a table of capacity \<open>2 ^ k\<close>.
\<close>

lemma two_tri: "2 * tri n = n * (n + 1)"
  unfolding tri_def by simp

lemma tri_mono: "j \<le> i \<Longrightarrow> tri j \<le> tri i"
  unfolding tri_def by (intro div_le_mono mult_le_mono) simp_all

lemma tri_diff:
  assumes "j < i"
  shows "2 * (tri i - tri j) = (i - j) * (i + j + 1)"
proof -
  have "2 * (tri i - tri j) = i * (i + 1) - j * (j + 1)"
    by (simp only: diff_mult_distrib2 two_tri)
  also have "\<dots> = (i - j) * (i + j + 1)"
  proof -
    obtain d where "i = j + d" using assms less_imp_add_positive by blast
    then show ?thesis by (simp add: algebra_simps)
  qed
  finally show ?thesis .
qed

lemma pow2_dvd_odd_mult:
  assumes "2 ^ n dvd a * b" "odd (a::nat)"
  shows "2 ^ n dvd b"
proof -
  have "coprime (2 ^ n) a"
    using assms(2) by (simp add: coprime_power_left_iff coprime_left_2_iff_odd)
  then show ?thesis using assms(1) by (simp add: coprime_dvd_mult_right_iff)
qed

lemma tri_inj_less:
  assumes "j < i" "i < 2 ^ k" "tri i mod 2 ^ k = tri j mod 2 ^ k"
  shows False
proof -
  have "tri j \<le> tri i" using assms(1) by (simp add: tri_mono)
  then have "2 ^ k dvd tri i - tri j"
    using assms(3) by (simp add: mod_eq_dvd_iff_nat)
  then have "2 * 2 ^ k dvd 2 * (tri i - tri j)" by simp
  then have d: "2 ^ Suc k dvd (i - j) * (i + j + 1)"
    using assms(1) by (simp add: tri_diff)
  have a: "0 < i - j" "i - j < 2 ^ Suc k" using assms by auto
  have b: "0 < i + j + 1" "i + j + 1 < 2 ^ Suc k" using assms by auto
  show False
  proof (cases "odd (i - j)")
    case True
    then have "2 ^ Suc k dvd i + j + 1" using d by (rule pow2_dvd_odd_mult[rotated])
    then show False using b by (simp add: nat_dvd_not_less)
  next
    case False
    then have "odd (i + j + 1)" using assms(1) by simp
    then have "2 ^ Suc k dvd i - j" using d by (metis mult.commute pow2_dvd_odd_mult)
    then show False using a by (simp add: nat_dvd_not_less)
  qed
qed

lemma tri_inj:
  "i < 2 ^ k \<Longrightarrow> j < 2 ^ k \<Longrightarrow> tri i mod 2 ^ k = tri j mod 2 ^ k \<Longrightarrow> i = j"
  by (metis tri_inj_less linorder_neqE_nat)

lemma mod_add_cancel_le:
  assumes "(a::nat) \<le> b" "(h + a) mod m = (h + b) mod m"
  shows "a mod m = b mod m"
proof -
  have "h + a \<le> h + b" using assms(1) by simp
  then have "m dvd (h + b) - (h + a)" using assms(2) by (metis mod_eq_dvd_iff_nat)
  then have "m dvd b - a" by simp
  then show ?thesis using assms(1) by (metis mod_eq_dvd_iff_nat)
qed

lemma mod_add_cancel_nat:
  "((h::nat) + a) mod m = (h + b) mod m \<Longrightarrow> a mod m = b mod m"
  by (metis mod_add_cancel_le nat_le_linear)

lemma tri_surj:
  assumes "i < 2 ^ k"
  shows "\<exists>n < 2 ^ k. (h + tri n) mod 2 ^ k = i"
proof -
  let ?f = "\<lambda>n. (h + tri n) mod 2 ^ k"
  have inj: "inj_on ?f {..<2 ^ k}"
  proof (rule inj_onI)
    fix x y
    assume "x \<in> {..<2 ^ k}" "y \<in> {..<2 ^ k}" "?f x = ?f y"
    then show "x = y"
      using tri_inj [of x k y] mod_add_cancel_nat [of h "tri x" "2 ^ k" "tri y"] by simp
  qed
  have "?f ` {..<2 ^ k} \<subseteq> {..<2 ^ k}" by auto
  then have "?f ` {..<2 ^ k} = {..<2 ^ k}"
    using inj by (simp add: card_image card_subset_eq)
  then have "i \<in> ?f ` {..<2 ^ k}" using assms by simp
  then show ?thesis by auto
qed




lemma shape_pow2:
  assumes "data_shape d"
  obtains k where "k < 31" "capacity d = 2 ^ k" "capacity32 d = 2 ^ k" "length (elements d) = 2 ^ k"
proof -
  from assms obtain k where k: "k < 31" "capacity d = 2 ^ k"
    unfolding data_shape_def is_power_of_two_def by auto
  have "capacity32 d = 2 ^ k" unfolding capacity32_def k(2) by simp
  moreover have "length (elements d) = 2 ^ k"
    using assms k(2) unfolding data_shape_def by (simp add: nat_power_eq)
  ultimately show ?thesis using k that by blast
qed

lemma probe_in_range:
  assumes "data_shape d"
  shows "unat (probe h (capacity32 d) n) < length (elements d)"
proof -
  obtain k where k: "k < 31" "capacity32 d = 2 ^ k" "length (elements d) = 2 ^ k"
    using assms by (rule shape_pow2)
  have "k \<le> 32" using k(1) by simp
  then show ?thesis using probe_closed [of k h n] k by simp
qed

lemma Get_probe:
  "data_shape d \<Longrightarrow> Get d (probe h (capacity32 d) n) = Some (slot_at d h n)"
  by (simp add: Get_def slot_at_def probe_in_range)

lemma probe_hits:
  assumes "data_shape d" "i < length (elements d)"
  shows "\<exists>n. unat (probe h (capacity32 d) n) = i"
proof -
  obtain k where k: "k < 31" "capacity32 d = 2 ^ k" "length (elements d) = 2 ^ k"
    using assms(1) by (rule shape_pow2)
  have "k \<le> 32" using k(1) by simp
  moreover obtain n where "(unat h + tri n) mod 2 ^ k = i"
    using tri_surj [of i k "unat h"] assms(2) k(3) by auto
  ultimately show ?thesis using probe_closed [of k h n] k by auto
qed

lemma FindEntry_loop_steps:
  assumes "data_shape d" "\<forall>j<n. passed key (slot_at d h j)"
  shows "FindEntry d key h = FindEntry_loop d key (probe h (capacity32 d) n) (of_nat (Suc n))"
  using assms(2)
proof (induction n)
  case 0
  then show ?case by (simp add: FindEntry_def)
next
  case (Suc n)
  then have ih: "FindEntry d key h = FindEntry_loop d key (probe h (capacity32 d) n) (of_nat (Suc n))"
    and p: "passed key (slot_at d h n)" by auto
  have "FindEntry_loop d key (probe h (capacity32 d) n) (of_nat (Suc n)) =
        FindEntry_loop d key (probe h (capacity32 d) (Suc n)) (of_nat (Suc n) + 1)"
    using p by (subst FindEntry_loop.simps)
      (simp add: Get_probe [OF assms(1)] passed_def split: element.splits)
  then show ?case using ih by (simp add: add.commute)
qed

lemma FindEntry_found_at:
  assumes "data_shape d" "\<forall>j<n. passed key (slot_at d h j)"
    "slot_at d h n = Str s" "KeyIsMatch key s"
  shows "FindEntry d key h = Some (Entry (probe h (capacity32 d) n))"
  unfolding FindEntry_loop_steps [OF assms(1,2)]
  using assms(3,4) by (subst FindEntry_loop.simps) (simp add: Get_probe [OF assms(1)])


lemma first_not_passed:
  assumes "data_shape d" "i < length (elements d)" "elements d ! i = empty_element"
  obtains n where "\<forall>j<n. passed key (slot_at d h j)" "\<not> passed key (slot_at d h n)"
proof -
  obtain m where "unat (probe h (capacity32 d) m) = i" using probe_hits [OF assms(1,2)] by blast
  then have "\<not> passed key (slot_at d h m)" using assms(3) by (simp add: slot_at_def passed_def)
  then have ex: "\<exists>m. \<not> passed key (slot_at d h m)" ..
  define n where "n = (LEAST m. \<not> passed key (slot_at d h m))"
  have "\<not> passed key (slot_at d h n)" unfolding n_def using ex by (rule LeastI_ex)
  moreover have "\<forall>j<n. passed key (slot_at d h j)"
    unfolding n_def using not_less_Least by blast
  ultimately show ?thesis using that by blast
qed

lemma FindInsertionEntry_loop_steps:
  assumes "data_shape d" "\<forall>j<n. is_string (slot_at d h j)"
  shows "FindInsertionEntry d h = FindInsertionEntry_loop d (probe h (capacity32 d) n) (of_nat (Suc n))"
  using assms(2)
proof (induction n)
  case 0
  then show ?case by (simp add: FindInsertionEntry_def)
next
  case (Suc n)
  then have ih: "FindInsertionEntry d h = FindInsertionEntry_loop d (probe h (capacity32 d) n) (of_nat (Suc n))"
    and p: "is_string (slot_at d h n)" by auto
  have "FindInsertionEntry_loop d (probe h (capacity32 d) n) (of_nat (Suc n)) =
        FindInsertionEntry_loop d (probe h (capacity32 d) (Suc n)) (of_nat (Suc n) + 1)"
    using p by (subst FindInsertionEntry_loop.simps)
      (simp add: Get_probe [OF assms(1)] is_string_def split: element.splits)
  then show ?case using ih by (simp add: add.commute)
qed

lemma FindInsertionEntry_at:
  assumes "data_shape d" "\<forall>j<n. is_string (slot_at d h j)" "\<not> is_string (slot_at d h n)"
  shows "FindInsertionEntry d h = Some (Entry (probe h (capacity32 d) n))"
  unfolding FindInsertionEntry_loop_steps [OF assms(1,2)]
  using assms(3) by (subst FindInsertionEntry_loop.simps)
    (simp add: Get_probe [OF assms(1)] is_string_def split: element.splits)

lemma first_not_string:
  assumes "data_shape d" "i < length (elements d)" "\<not> is_string (elements d ! i)"
  obtains n where "\<forall>j<n. is_string (slot_at d h j)" "\<not> is_string (slot_at d h n)"
proof -
  obtain m where "unat (probe h (capacity32 d) m) = i" using probe_hits [OF assms(1,2)] by blast
  then have "\<not> is_string (slot_at d h m)" using assms(3) by (simp add: slot_at_def)
  then have ex: "\<exists>m. \<not> is_string (slot_at d h m)" ..
  define n where "n = (LEAST m. \<not> is_string (slot_at d h m))"
  have "\<not> is_string (slot_at d h n)" unfolding n_def using ex by (rule LeastI_ex)
  moreover have "\<forall>j<n. is_string (slot_at d h j)"
    unfolding n_def using not_less_Least by blast
  ultimately show ?thesis using that by blast
qed

text \<open>FindEntryOrInsertionEntry\<close>

lemma FEOIE_loop_keep:
  assumes "data_shape d" "ie \<noteq> NotFound" "m \<le> n" "\<forall>j. m \<le> j \<and> j < n \<longrightarrow> passed key (slot_at d h j)"
  shows "FindEntryOrInsertionEntry_loop d key ie (probe h (capacity32 d) m) (of_nat (Suc m)) =
         FindEntryOrInsertionEntry_loop d key ie (probe h (capacity32 d) n) (of_nat (Suc n))"
  using assms(3,4)
proof (induction n)
  case 0
  then show ?case by simp
next
  case (Suc n)
  show ?case
  proof (cases "m = Suc n")
    case True then show ?thesis by simp
  next
    case False
    then have mn: "m \<le> n" using Suc.prems(1) by simp
    then have ih: "FindEntryOrInsertionEntry_loop d key ie (probe h (capacity32 d) m) (of_nat (Suc m)) =
         FindEntryOrInsertionEntry_loop d key ie (probe h (capacity32 d) n) (of_nat (Suc n))"
      using Suc by simp
    have p: "passed key (slot_at d h n)" using Suc.prems(2) mn by simp
    have "FindEntryOrInsertionEntry_loop d key ie (probe h (capacity32 d) n) (of_nat (Suc n)) =
        FindEntryOrInsertionEntry_loop d key ie (probe h (capacity32 d) (Suc n)) (of_nat (Suc n) + 1)"
      using p assms(2) by (subst FindEntryOrInsertionEntry_loop.simps)
        (simp add: Get_probe [OF assms(1)] passed_def split: element.splits)
    then show ?thesis using ih by (simp add: add.commute)
  qed
qed

lemma FEOIE_loop_strings:
  assumes "data_shape d" "\<forall>j<n. passed key (slot_at d h j) \<and> slot_at d h j \<noteq> deleted_element"
  shows "FindEntryOrInsertionEntry d key h =
         FindEntryOrInsertionEntry_loop d key NotFound (probe h (capacity32 d) n) (of_nat (Suc n))"
  using assms(2)
proof (induction n)
  case 0
  then show ?case by (simp add: FindEntryOrInsertionEntry_def)
next
  case (Suc n)
  then have ih: "FindEntryOrInsertionEntry d key h =
         FindEntryOrInsertionEntry_loop d key NotFound (probe h (capacity32 d) n) (of_nat (Suc n))"
    and p: "passed key (slot_at d h n)" "slot_at d h n \<noteq> deleted_element" by auto
  have "FindEntryOrInsertionEntry_loop d key NotFound (probe h (capacity32 d) n) (of_nat (Suc n)) =
        FindEntryOrInsertionEntry_loop d key NotFound (probe h (capacity32 d) (Suc n)) (of_nat (Suc n) + 1)"
    using p by (subst FindEntryOrInsertionEntry_loop.simps)
      (simp add: Get_probe [OF assms(1)] passed_def split: element.splits)
  then show ?case using ih by (simp add: add.commute)
qed

text \<open>No deleted sentinel before the stop.\<close>

lemma FEOIE_no_deleted:
  assumes "data_shape d" "\<forall>j<n. passed key (slot_at d h j) \<and> slot_at d h j \<noteq> deleted_element"
    "\<not> passed key (slot_at d h n)"
  shows "FindEntryOrInsertionEntry d key h = Some (Entry (probe h (capacity32 d) n))"
  unfolding FEOIE_loop_strings [OF assms(1,2)]
  using assms(3) by (subst FindEntryOrInsertionEntry_loop.simps)
    (simp add: Get_probe [OF assms(1)] passed_def split: element.splits)

text \<open>A first deleted sentinel at turn m, the stop at turn n.\<close>

lemma FEOIE_deleted:
  assumes "data_shape d" "\<forall>j<m. passed key (slot_at d h j) \<and> slot_at d h j \<noteq> deleted_element"
    "slot_at d h m = deleted_element" "m < n"
    "\<forall>j<n. passed key (slot_at d h j)" "\<not> passed key (slot_at d h n)"
  shows "FindEntryOrInsertionEntry d key h =
           Some (if slot_at d h n = empty_element then Entry (probe h (capacity32 d) m)
                 else Entry (probe h (capacity32 d) n))"
proof -
  let ?c = "capacity32 d"
  have "FindEntryOrInsertionEntry d key h =
        FindEntryOrInsertionEntry_loop d key NotFound (probe h ?c m) (of_nat (Suc m))"
    by (rule FEOIE_loop_strings [OF assms(1,2)])
  also have "\<dots> = FindEntryOrInsertionEntry_loop d key (Entry (probe h ?c m))
                     (probe h ?c (Suc m)) (of_nat (Suc m) + 1)"
    using assms(3) by (subst FindEntryOrInsertionEntry_loop.simps)
      (simp add: Get_probe [OF assms(1)])
  also have "\<dots> = FindEntryOrInsertionEntry_loop d key (Entry (probe h ?c m))
                     (probe h ?c (Suc m)) (of_nat (Suc (Suc m)))"
    by (simp add: add.commute)
  also have "\<dots> = FindEntryOrInsertionEntry_loop d key (Entry (probe h ?c m))
                     (probe h ?c n) (of_nat (Suc n))"
    using assms(4,5) by (intro FEOIE_loop_keep [OF assms(1)]) auto
  also have "\<dots> = Some (if slot_at d h n = empty_element then Entry (probe h ?c m)
                 else Entry (probe h ?c n))"
    using assms(6) by (subst FindEntryOrInsertionEntry_loop.simps)
      (simp add: Get_probe [OF assms(1)] passed_def split: element.splits)
  finally show ?thesis .
qed

lemma exists_other:
  "length (filter P xs) + length (filter Q xs) < length xs \<Longrightarrow> \<exists>i<length xs. \<not> P (xs ! i) \<and> \<not> Q (xs ! i)"
proof (induction xs)
  case Nil then show ?case by simp
next
  case (Cons x xs)
  show ?case
  proof (cases "\<not> P x \<and> \<not> Q x")
    case True then show ?thesis by (intro exI[of _ 0]) simp
  next
    case False
    then have "length (filter P xs) + length (filter Q xs) < length xs"
      using Cons.prems by (auto split: if_splits)
    then obtain i where "i < length xs" "\<not> P (xs ! i) \<and> \<not> Q (xs ! i)" using Cons.IH by blast
    then show ?thesis by (intro exI[of _ "Suc i"]) simp
  qed
qed

lemma inv_has_empty:
  assumes "data_inv d"
  shows "\<exists>i<length (elements d). elements d ! i = empty_element"
proof -
  have "length (filter is_string (elements d)) + length (filter (\<lambda>e. e = deleted_element) (elements d))
        < length (elements d)"
    using assms unfolding data_inv_def data_shape_def by linarith
  then obtain i where "i < length (elements d)" "\<not> is_string (elements d ! i)" "elements d ! i \<noteq> deleted_element"
    using exists_other by blast
  then show ?thesis by (cases "elements d ! i") (auto simp: is_string_def)
qed

lemma Set_simps [simp]:
  "elements (Set d e s) = (elements d)[unat e := Str s]"
  "capacity (Set d e s) = capacity d"
  "capacity32 (Set d e s) = capacity32 d"
  "number_of_elements (Set d e s) = number_of_elements d"
  "number_of_deleted_elements (Set d e s) = number_of_deleted_elements d"
  "previous_data (Set d e s) = previous_data d"
  by (simp_all add: Set_def capacity32_def)

lemma Set_shape: "data_shape d \<Longrightarrow> data_shape (Set d e s)"
  by (simp add: data_shape_def)

lemma strings_of_simps [simp]:
  "strings_of [] = []"
  "strings_of (Str s # es) = s # strings_of es"
  "strings_of (empty_element # es) = strings_of es"
  "strings_of (deleted_element # es) = strings_of es"
  by (simp_all add: strings_of_def)

lemma strings_of_append [simp]: "strings_of (xs @ ys) = strings_of xs @ strings_of ys"
  by (simp add: strings_of_def)

lemma length_strings_of: "length (strings_of es) = length (filter is_string es)"
proof (induction es)
  case Nil then show ?case by simp
next
  case (Cons e es) then show ?case by (cases e) (simp_all add: is_string_def)
qed

lemma strings_of_update:
  "i < length xs \<Longrightarrow> \<not> is_string (xs ! i) \<Longrightarrow>
   mset (strings_of (xs[i := Str s])) = add_mset s (mset (strings_of xs))"
proof (induction xs arbitrary: i)
  case Nil then show ?case by simp
next
  case (Cons x xs)
  show ?case
  proof (cases i)
    case 0
    then show ?thesis using Cons.prems by (cases x) (simp_all add: is_string_def)
  next
    case (Suc k)
    then show ?thesis using Cons by (cases x) simp_all
  qed
qed

lemma is_string_update:
  "k < length xs \<Longrightarrow> is_string (xs ! k) \<Longrightarrow> is_string (xs[e := Str s] ! k)"
  by (cases "e = k") (simp_all add: is_string_def)

lemma slot_at_Set_string:
  assumes "data_shape d" "is_string (slot_at d h j)"
  shows "is_string (slot_at (Set d e s) h j)"
  using assms probe_in_range [OF assms(1), of h j]
  by (simp add: slot_at_def is_string_update)

lemma reachable_Set:
  assumes sh: "data_shape d" and r: "reachable d"
    and path: "\<forall>j<n. is_string (slot_at d (hash s) j)"
    and stop: "\<not> is_string (slot_at d (hash s) n)"
  shows "reachable (Set d (probe (hash s) (capacity32 d) n) s)"
  unfolding reachable_def
proof (intro allI impI)
  let ?e = "probe (hash s) (capacity32 d) n"
  let ?d = "Set d ?e s"
  fix i t
  assume i: "i < length (elements ?d)" and t: "elements ?d ! i = Str t"
  show "\<exists>m. unat (probe (hash t) (capacity32 ?d) m) = i \<and> (\<forall>j<m. is_string (slot_at ?d (hash t) j))"
  proof (cases "i = unat ?e")
    case True
    then have "t = s" using t i by simp
    then show ?thesis using True path slot_at_Set_string [OF sh] by (intro exI[of _ n]) simp
  next
    case False
    then have "elements d ! i = Str t" using t by simp
    then obtain m where "unat (probe (hash t) (capacity32 d) m) = i"
      "\<forall>j<m. is_string (slot_at d (hash t) j)"
      using r i unfolding reachable_def by auto
    then show ?thesis using slot_at_Set_string [OF sh] by (intro exI[of _ m]) simp
  qed
qed

lemma New_simps [simp]:
  "elements (New cap) = replicate (nat cap) empty_element"
  "capacity (New cap) = cap"
  "number_of_elements (New cap) = 0"
  "number_of_deleted_elements (New cap) = 0"
  by (simp_all add: New_def)

lemma strings_of_replicate_empty [simp]: "strings_of (replicate n empty_element) = []"
  by (induction n) simp_all

lemma New_shape: "is_power_of_two cap \<Longrightarrow> data_shape (New cap)"
  by (simp add: data_shape_def)

lemma New_reachable: "reachable (New cap)"
  by (simp add: reachable_def)

lemma Get_of_nat:
  assumes "data_shape d" "i < length (elements d)"
  shows "Get d (of_nat i) = Some (elements d ! i)"
proof -
  obtain k where k: "k < 31" "length (elements d) = 2 ^ k"
    using assms(1) by (rule shape_pow2)
  have "(2::nat) ^ k < 2 ^ 32" using k(1) by (intro power_strict_increasing) simp_all
  then have "i < 2 ^ 32" using assms(2) k(2) by simp
  then have "unat (of_nat i :: 32 word) = i" by (simp add: unat_of_nat)
  then show ?thesis using assms(2) by (simp add: Get_def)
qed

lemma Resize_rehash_ok:
  assumes "data_shape d" "\<forall>i\<in>set is. i < length (elements d)"
    "data_shape nd" "deleted_element \<notin> set (elements nd)"
    "length (strings_of (elements nd)) + length (strings_of (map (nth (elements d)) is))
       < length (elements nd)"
    "reachable nd"
  shows "\<exists>nd'. Resize_rehash d is nd = Some nd' \<and> data_shape nd' \<and> capacity nd' = capacity nd \<and>
           deleted_element \<notin> set (elements nd') \<and> reachable nd' \<and>
           number_of_deleted_elements nd' = number_of_deleted_elements nd \<and>
           mset (strings_of (elements nd')) =
             mset (strings_of (elements nd)) + mset (strings_of (map (nth (elements d)) is))"
  using assms(2-)
proof (induction "is" arbitrary: nd)
  case Nil
  then show ?case by simp
next
  case (Cons i rest)
  have i: "i < length (elements d)" using Cons.prems(1) by simp
  have g: "Get d (of_nat i) = Some (elements d ! i)" using assms(1) i by (rule Get_of_nat)
  have rest: "\<forall>i\<in>set rest. i < length (elements d)" using Cons.prems(1) by simp
  show ?case
  proof (cases "elements d ! i")
    case empty_element
    then show ?thesis using Cons.IH [OF rest Cons.prems(2,3) _ Cons.prems(5)] Cons.prems(4) g
      by simp
  next
    case deleted_element
    then show ?thesis using Cons.IH [OF rest Cons.prems(2,3) _ Cons.prems(5)] Cons.prems(4) g
      by simp
  next
    case (Str s)
    have "length (filter is_string (elements nd)) + length (filter (\<lambda>_. False) (elements nd))
            < length (elements nd)"
      using Cons.prems(4) by (simp add: length_strings_of)
    then obtain p where p: "p < length (elements nd)" "\<not> is_string (elements nd ! p)"
      using exists_other by blast
    obtain n where n: "\<forall>j<n. is_string (slot_at nd (hash s) j)" "\<not> is_string (slot_at nd (hash s) n)"
      using first_not_string [OF Cons.prems(2) p] by blast
    let ?e = "probe (hash s) (capacity32 nd) n"
    let ?nd = "Set nd ?e s"
    have f: "FindInsertionEntry nd (hash s) = Some (Entry ?e)"
      using Cons.prems(2) n by (rule FindInsertionEntry_at)
    have e: "unat ?e < length (elements nd)" using Cons.prems(2) by (rule probe_in_range)
    have m: "mset (strings_of (elements ?nd)) = add_mset s (mset (strings_of (elements nd)))"
      using e n(2) by (simp add: strings_of_update slot_at_def)
    then have l: "length (strings_of (elements ?nd)) = Suc (length (strings_of (elements nd)))"
      by (metis size_mset size_add_mset)
    have 1: "data_shape ?nd" using Cons.prems(2) by (rule Set_shape)
    have 2: "deleted_element \<notin> set (elements ?nd)"
      using Cons.prems(3) set_update_subset_insert [of "elements nd" "unat ?e" "Str s"] by auto
    have 3: "length (strings_of (elements ?nd)) + length (strings_of (map (nth (elements d)) rest))
               < length (elements ?nd)"
      using Cons.prems(4) l Str by simp
    have 4: "reachable ?nd" using Cons.prems(2,5) n by (rule reachable_Set)
    from Cons.IH [OF rest 1 2 3 4] show ?thesis using g Str f m by simp
  qed
qed

lemma cdiv_nonneg: "0 \<le> a \<Longrightarrow> 0 < b \<Longrightarrow> cdiv a b = a div b"
  by (cases "a = 0") (simp_all add: cdiv_def)

lemma RoundUpFrom_pow2:
  "p = 2 ^ a \<Longrightarrow> \<exists>b\<ge>a. RoundUpFrom p v = 2 ^ b \<and> v \<le> 2 ^ b \<and> (a < b \<longrightarrow> 2 ^ b < 2 * v)"
proof (induction p v arbitrary: a rule: RoundUpFrom.induct)
  case (1 p v)
  show ?case
  proof (cases "p < v")
    case True
    then have "0 < p \<and> p < v" using 1(2) by simp
    moreover have "2 * p = 2 ^ Suc a" using 1(2) by simp
    ultimately obtain b where b: "b \<ge> Suc a" "RoundUpFrom (2 * p) v = 2 ^ b"
      "v \<le> 2 ^ b" "Suc a < b \<longrightarrow> 2 ^ b < 2 * v"
      using 1(1) by blast
    have "RoundUpFrom p v = 2 ^ b" using True 1(2) b(2) by (subst RoundUpFrom.simps) simp
    moreover have "2 ^ b < 2 * v"
    proof (cases "Suc a < b")
      case True then show ?thesis using b(4) by simp
    next
      case False
      then have "b = Suc a" using b(1) by simp
      then show ?thesis using \<open>p < v\<close> 1(2) by simp
    qed
    moreover have "a \<le> b" using b(1) by simp
    ultimately show ?thesis using b(3) by blast
  next
    case False
    then have "RoundUpFrom p v = p" by (subst RoundUpFrom.simps) simp
    then show ?thesis using False 1(2) by (intro exI[of _ a]) simp
  qed
qed

lemma RoundUpToPowerOfTwo32_pow2:
  "\<exists>b. RoundUpToPowerOfTwo32 v = 2 ^ b \<and> v \<le> 2 ^ b \<and> (0 < b \<longrightarrow> 2 ^ b < 2 * v)"
  using RoundUpFrom_pow2 [of 1 0 v] unfolding RoundUpToPowerOfTwo32_def by auto

lemma pow2_le_imp_exp_le: "(2::nat) ^ b < 2 * 2 ^ m \<Longrightarrow> b \<le> m"
proof -
  assume "(2::nat) ^ b < 2 * 2 ^ m"
  then have "(2::nat) ^ b < 2 ^ Suc m" by simp
  then have "b < Suc m" by (rule power_less_imp_less_exp [rotated]) simp
  then show ?thesis by simp
qed


lemma max_pow2_int: "max ((2::int) ^ b) (2 ^ 11) = 2 ^ max b 11"
proof (cases "11 \<le> b")
  case True
  then have "(2::int) ^ 11 \<le> 2 ^ b" by (intro power_increasing) simp_all
  then show ?thesis using True by (simp only: max_absorb1)
next
  case False
  then have "b \<le> 11" by simp
  then have "(2::int) ^ b \<le> 2 ^ 11" by (intro power_increasing) simp_all
  then show ?thesis using \<open>b \<le> 11\<close> by (simp only: max_absorb2)
qed

lemma ComputeStringTableCapacity_eq:
  "\<exists>b. ComputeStringTableCapacity x = 2 ^ max b 11 \<and> nat (x + x div 2) \<le> 2 ^ b \<and>
       (0 < b \<longrightarrow> 2 ^ b < 2 * nat (x + x div 2))"
proof -
  obtain b where b: "RoundUpToPowerOfTwo32 (nat (x + x div 2)) = 2 ^ b"
    "nat (x + x div 2) \<le> 2 ^ b" "0 < b \<longrightarrow> 2 ^ b < 2 * nat (x + x div 2)"
    using RoundUpToPowerOfTwo32_pow2 [of "nat (x + x div 2)"] by blast
  have "ComputeStringTableCapacity x = max (2 ^ b) (2 ^ 11)"
    unfolding ComputeStringTableCapacity_def Let_def b(1) kStringTableMinCapacity_def by simp
  then have "ComputeStringTableCapacity x = 2 ^ max b 11" by (simp only: max_pow2_int)
  then show ?thesis using b(2,3) by blast
qed


lemma ComputeStringTableCapacity_props:
  assumes "1 \<le> x" "x + x div 2 \<le> 2 ^ m" "11 \<le> m"
  shows "\<exists>k. 11 \<le> k \<and> k \<le> m \<and> ComputeStringTableCapacity x = 2 ^ k \<and>
             x + x div 2 \<le> 2 ^ k \<and> x < 2 ^ k"
proof -
  define raw where "raw = nat (x + x div 2)"
  obtain b where b: "ComputeStringTableCapacity x = 2 ^ max b 11" "raw \<le> 2 ^ b"
    "0 < b \<longrightarrow> 2 ^ b < 2 * raw"
    using ComputeStringTableCapacity_eq [of x] unfolding raw_def by blast
  have x0: "0 \<le> x + x div 2" using assms(1) by simp
  have iraw: "int raw = x + x div 2" unfolding raw_def using x0 by simp
  have "int raw \<le> int (2 ^ m)" using assms(2) iraw by simp
  then have rawm: "raw \<le> 2 ^ m" by (simp only: of_nat_le_iff)
  have bm: "b \<le> m"
  proof (cases "0 < b")
    case True
    then have "2 ^ b < 2 * raw" using b(3) by simp
    also have "\<dots> \<le> 2 * 2 ^ m" using rawm by simp
    finally show ?thesis by (rule pow2_le_imp_exp_le)
  next
    case False then show ?thesis by simp
  qed
  define k where "k = max b 11"
  have k: "11 \<le> k" "k \<le> m" "b \<le> k" unfolding k_def using bm assms(3) by simp_all
  have "int raw \<le> int (2 ^ b)" using b(2) by (simp only: of_nat_le_iff)
  also have "\<dots> = 2 ^ b" by simp
  also have "(2::int) ^ b \<le> 2 ^ k" using k(3) by (intro power_increasing) simp_all
  finally have r: "x + x div 2 \<le> 2 ^ k" using iraw by simp
  have "x < 2 ^ k"
  proof (cases "x = 1")
    case True
    have "(2::int) ^ 1 \<le> 2 ^ k" using k(1) by (intro power_increasing) simp_all
    then show ?thesis using True by simp
  next
    case False
    then have "1 \<le> x div 2" using assms(1) by simp
    then show ?thesis using r by simp
  qed
  then show ?thesis using k(1,2) b(1) r unfolding k_def by blast
qed

lemma is_power_of_two_iff: "is_power_of_two c \<longleftrightarrow> (\<exists>k<31. c = 2 ^ k)"
  unfolding is_power_of_two_def by auto

lemma inv_nof:
  assumes "data_inv d"
  shows "number_of_elements d = int (length (strings_of (elements d)))"
  using assms by (simp add: data_inv_def length_strings_of)

lemma Resize_ok:
  assumes "data_inv d" "is_power_of_two cap" "number_of_elements d < cap"
  shows "\<exists>d'. Resize d cap = Some d' \<and> data_inv d' \<and> capacity d' = cap \<and>
           number_of_elements d' = number_of_elements d \<and>
           number_of_deleted_elements d' = 0 \<and>
           deleted_element \<notin> set (elements d') \<and> reachable d' \<and>
           previous_data d' = Some d \<and>
           mset (strings_of (elements d')) = mset (strings_of (elements d))"
proof -
  have sh: "data_shape d" using assms(1) by (simp add: data_inv_def)
  have len: "length (elements d) = nat (capacity d)" using sh by (simp add: data_shape_def)
  have idx: "map (nth (elements d)) [0..<nat (capacity d)] = elements d"
    using len by (metis map_nth)
  have 1: "\<forall>i\<in>set [0..<nat (capacity d)]. i < length (elements d)" using len by simp
  have 2: "data_shape (New cap)" using assms(2) by (rule New_shape)
  have 3: "deleted_element \<notin> set (elements (New cap))" by simp
  have "int (length (strings_of (elements d))) < cap" using assms(1,3) by (simp add: inv_nof)
  then have 4: "length (strings_of (elements (New cap)))
           + length (strings_of (map (nth (elements d)) [0..<nat (capacity d)]))
         < length (elements (New cap))"
    unfolding idx by simp
  obtain nd where nd: "Resize_rehash d [0..<nat (capacity d)] (New cap) = Some nd"
    "data_shape nd" "capacity nd = capacity (New cap)" "deleted_element \<notin> set (elements nd)"
    "reachable nd" "number_of_deleted_elements nd = number_of_deleted_elements (New cap)"
    "mset (strings_of (elements nd)) = mset (strings_of (elements (New cap)))
        + mset (strings_of (map (nth (elements d)) [0..<nat (capacity d)]))"
    using Resize_rehash_ok [OF sh 1 2 3 4 New_reachable] by blast
  let ?d = "Data (Some d) (number_of_elements d) (number_of_deleted_elements nd) (capacity nd) (elements nd)"
  have r: "Resize d cap = Some ?d" by (simp add: Resize_def nd(1))
  have m: "mset (strings_of (elements nd)) = mset (strings_of (elements d))"
    using nd(7) unfolding idx by simp
  then have l: "length (strings_of (elements nd)) = length (strings_of (elements d))"
    by (metis size_mset)
  have nodel: "filter (\<lambda>e. e = deleted_element) (elements nd) = []"
    using nd(4) by (auto simp: filter_empty_conv)
  have sh': "data_shape ?d" using nd(2) by (simp add: data_shape_def)
  have "data_inv ?d"
    unfolding data_inv_def using sh' nd(3,6) nodel l assms(1,3)
    by (simp add: inv_nof length_strings_of [symmetric])
  moreover have "reachable ?d" using nd(5) by (simp add: reachable_def slot_at_def capacity32_def)
  ultimately show ?thesis using r nd(3,4,6) m by simp
qed

lemma ComputeStringTableCapacity_min: "2048 \<le> ComputeStringTableCapacity x"
  by (simp add: ComputeStringTableCapacity_def Let_def kStringTableMinCapacity_def)

lemma ComputeStringTableCapacityWithShrink_eq:
  "ComputeStringTableCapacityWithShrink cap x =
     (if x > cdiv cap 4 then cap else ComputeStringTableCapacity x)"
  using ComputeStringTableCapacity_min [of x]
  by (simp add: ComputeStringTableCapacityWithShrink_def Let_def kStringTableMinCapacity_def
      kStringTableMaxEmptyFactor_def)

lemma EnsureCapacity_eq:
  "EnsureCapacity d a =
     (if (number_of_elements d + 1 \<le> cdiv (capacity d) 4 \<and>
          ComputeStringTableCapacity (number_of_elements d + 1) < capacity d) \<or>
         \<not> StringTableHasSufficientCapacityToAdd (capacity d) (number_of_elements d)
             (number_of_deleted_elements d) 1
      then Resize d (ComputeStringTableCapacity (number_of_elements d + 1))
      else Some d)"
  using ComputeStringTableCapacity_min [of "number_of_elements d + 1"]
  by (auto simp add: EnsureCapacity_def Let_def ComputeStringTableCapacityWithShrink_eq)

lemma inv_nof_nonneg: "data_inv d \<Longrightarrow> 0 \<le> number_of_elements d"
  by (simp add: data_inv_def)

lemma Compute_for_table:
  assumes "0 \<le> n" "n < 2 ^ 29"
  shows "\<exists>k. 11 \<le> k \<and> k \<le> 30 \<and> ComputeStringTableCapacity (n + 1) = 2 ^ k \<and>
           (n + 1) + (n + 1) div 2 \<le> 2 ^ k \<and> n + 1 < 2 ^ k"
proof -
  have "(n + 1) + (n + 1) div 2 \<le> 2 ^ 30" using assms by simp
  then show ?thesis using ComputeStringTableCapacity_props [of "n + 1" 30] assms(1) by simp
qed

lemma HasSufficient_after_resize:
  assumes "0 \<le> n" "(n + 1) + (n + 1) div 2 \<le> c" "n + 1 < c"
  shows "StringTableHasSufficientCapacityToAdd c n 0 1"
  using assms by (simp add: StringTableHasSufficientCapacityToAdd_def Let_def cdiv_nonneg)

lemma EnsureCapacity_ok:
  assumes "data_inv d" "number_of_elements d < 2 ^ 29"
  shows "\<exists>d'. EnsureCapacity d 1 = Some d' \<and> data_inv d' \<and>
           StringTableHasSufficientCapacityToAdd (capacity d') (number_of_elements d')
             (number_of_deleted_elements d') 1 \<and>
           number_of_elements d' = number_of_elements d \<and>
           mset (strings_of (elements d')) = mset (strings_of (elements d)) \<and>
           (d' = d \<or> (capacity d' = ComputeStringTableCapacity (number_of_elements d + 1) \<and>
                      number_of_deleted_elements d' = 0 \<and> reachable d' \<and>
                      previous_data d' = Some d))"
proof (cases "(number_of_elements d + 1 \<le> cdiv (capacity d) 4 \<and>
          ComputeStringTableCapacity (number_of_elements d + 1) < capacity d) \<or>
         \<not> StringTableHasSufficientCapacityToAdd (capacity d) (number_of_elements d)
             (number_of_deleted_elements d) 1")
  case False
  then have "EnsureCapacity d 1 = Some d" by (simp only: EnsureCapacity_eq if_False)
  then show ?thesis using False assms(1) by simp
next
  case True
  let ?n = "number_of_elements d"
  let ?c = "ComputeStringTableCapacity (?n + 1)"
  have e: "EnsureCapacity d 1 = Resize d ?c" using True by (simp only: EnsureCapacity_eq if_True)
  have n0: "0 \<le> ?n" using assms(1) by (rule inv_nof_nonneg)
  obtain k where k: "11 \<le> k" "k \<le> 30" "?c = 2 ^ k" "(?n + 1) + (?n + 1) div 2 \<le> 2 ^ k"
    "?n + 1 < 2 ^ k"
    using Compute_for_table [OF n0 assms(2)] by blast
  have p: "is_power_of_two ?c" unfolding is_power_of_two_iff using k(2,3) by (intro exI[of _ k]) simp
  have lt: "?n < ?c" using k(3,5) by simp
  obtain d' where d': "Resize d ?c = Some d'" "data_inv d'" "capacity d' = ?c"
    "number_of_elements d' = ?n" "number_of_deleted_elements d' = 0" "reachable d'"
    "previous_data d' = Some d"
    "mset (strings_of (elements d')) = mset (strings_of (elements d))"
    using Resize_ok [OF assms(1) p lt] by blast
  have "StringTableHasSufficientCapacityToAdd (capacity d') (number_of_elements d')
             (number_of_deleted_elements d') 1"
    unfolding d'(3,4,5) k(3) using n0 k(4,5) by (rule HasSufficient_after_resize)
  then show ?thesis using e d' by simp
qed

lemma not_passed_cases:
  "\<not> passed key e \<Longrightarrow> e = empty_element \<or> (\<exists>s. e = Str s \<and> KeyIsMatch key s)"
  by (cases e) (simp_all add: passed_def)

lemma passed_string: "passed key e \<Longrightarrow> e \<noteq> deleted_element \<Longrightarrow> is_string e"
  by (cases e) (simp_all add: passed_def is_string_def)

lemma FEOIE_cases:
  assumes sh: "data_shape d" and before: "\<forall>j<n. passed key (slot_at d h j)"
    and stop: "\<not> passed key (slot_at d h n)"
  shows "(\<exists>s. slot_at d h n = Str s \<and> KeyIsMatch key s \<and>
            FindEntryOrInsertionEntry d key h = Some (Entry (probe h (capacity32 d) n))) \<or>
         (slot_at d h n = empty_element \<and>
          (\<exists>m\<le>n. (\<forall>j<m. passed key (slot_at d h j) \<and> is_string (slot_at d h j)) \<and>
             \<not> is_string (slot_at d h m) \<and>
             FindEntryOrInsertionEntry d key h = Some (Entry (probe h (capacity32 d) m))))"
proof (cases "\<exists>j<n. slot_at d h j = deleted_element")
  case False
  then have nd: "\<forall>j<n. passed key (slot_at d h j) \<and> slot_at d h j \<noteq> deleted_element"
    using before by blast
  have r: "FindEntryOrInsertionEntry d key h = Some (Entry (probe h (capacity32 d) n))"
    using sh nd stop by (rule FEOIE_no_deleted)
  from not_passed_cases [OF stop] show ?thesis
  proof
    assume e: "slot_at d h n = empty_element"
    have "\<forall>j<n. passed key (slot_at d h j) \<and> is_string (slot_at d h j)"
      using nd passed_string by blast
    moreover have "\<not> is_string (slot_at d h n)" using e by (simp add: is_string_def)
    ultimately show ?thesis using e r by blast
  next
    assume "\<exists>s. slot_at d h n = Str s \<and> KeyIsMatch key s"
    then show ?thesis using r by blast
  qed
next
  case True
  define m where "m = (LEAST j. slot_at d h j = deleted_element)"
  from True obtain j0 where j0: "j0 < n" "slot_at d h j0 = deleted_element" by blast
  have md: "slot_at d h m = deleted_element" unfolding m_def using j0(2) by (rule LeastI)
  have "m \<le> j0" unfolding m_def using j0(2) by (rule Least_le)
  then have mn: "m < n" using j0(1) by simp
  have "\<forall>j<m. slot_at d h j \<noteq> deleted_element" unfolding m_def using not_less_Least by blast
  then have nd: "\<forall>j<m. passed key (slot_at d h j) \<and> slot_at d h j \<noteq> deleted_element"
    using before mn by auto
  have r: "FindEntryOrInsertionEntry d key h =
           Some (if slot_at d h n = empty_element then Entry (probe h (capacity32 d) m)
                 else Entry (probe h (capacity32 d) n))"
    using sh nd md mn before stop by (rule FEOIE_deleted)
  from not_passed_cases [OF stop] show ?thesis
  proof
    assume e: "slot_at d h n = empty_element"
    have "\<forall>j<m. passed key (slot_at d h j) \<and> is_string (slot_at d h j)"
      using nd passed_string by blast
    moreover have "\<not> is_string (slot_at d h m)" using md by (simp add: is_string_def)
    moreover have "m \<le> n" using mn by simp
    ultimately show ?thesis using e r by auto
  next
    assume "\<exists>s. slot_at d h n = Str s \<and> KeyIsMatch key s"
    then show ?thesis using r by auto
  qed
qed

lemma ElementAdded_simps [simp]:
  "elements (ElementAdded d) = elements d"
  "capacity (ElementAdded d) = capacity d"
  "capacity32 (ElementAdded d) = capacity32 d"
  "number_of_elements (ElementAdded d) = number_of_elements d + 1"
  "number_of_deleted_elements (ElementAdded d) = number_of_deleted_elements d"
  "previous_data (ElementAdded d) = previous_data d"
  by (simp_all add: ElementAdded_def capacity32_def)

lemma DeletedElementOverwritten_simps [simp]:
  "elements (DeletedElementOverwritten d) = elements d"
  "capacity (DeletedElementOverwritten d) = capacity d"
  "capacity32 (DeletedElementOverwritten d) = capacity32 d"
  "number_of_elements (DeletedElementOverwritten d) = number_of_elements d + 1"
  "number_of_deleted_elements (DeletedElementOverwritten d) = number_of_deleted_elements d - 1"
  "previous_data (DeletedElementOverwritten d) = previous_data d"
  by (simp_all add: DeletedElementOverwritten_def capacity32_def)


text \<open>The table after the write of a new string into the slot of turn m.\<close>

lemma LookupKey_miss:
  assumes inv: "data_inv t" and small: "number_of_elements t < 2 ^ 29"
    and miss: "FindEntry t key (key_hash key) = Some NotFound"
  shows "\<exists>d. EnsureCapacity t 1 = Some d \<and> data_inv d \<and>
           StringTableHasSufficientCapacityToAdd (capacity d) (number_of_elements d)
             (number_of_deleted_elements d) 1 \<and>
           ((\<exists>n s. (\<forall>j<n. passed key (slot_at d (key_hash key) j)) \<and>
                   slot_at d (key_hash key) n = Str s \<and> KeyIsMatch key s \<and>
                   LookupKey t key = Some (s, d)) \<or>
            (\<exists>m t1. (\<forall>j<m. passed key (slot_at d (key_hash key) j) \<and>
                             is_string (slot_at d (key_hash key) j)) \<and>
                    \<not> is_string (slot_at d (key_hash key) m) \<and>
                    LookupKey t key = Some (key_string key, t1) \<and>
                    elements t1 = (elements d)[unat (probe (key_hash key) (capacity32 d) m)
                                               := Str (key_string key)] \<and>
                    capacity t1 = capacity d \<and>
                    number_of_elements t1 = number_of_elements d + 1))"
proof -
  let ?h = "key_hash key"
  obtain d where d: "EnsureCapacity t 1 = Some d" "data_inv d"
    "StringTableHasSufficientCapacityToAdd (capacity d) (number_of_elements d)
             (number_of_deleted_elements d) 1"
    using EnsureCapacity_ok [OF inv small] by blast
  have sh: "data_shape d" using d(2) by (simp add: data_inv_def)
  obtain i where i: "i < length (elements d)" "elements d ! i = empty_element"
    using inv_has_empty [OF d(2)] by blast
  obtain n where n: "\<forall>j<n. passed key (slot_at d ?h j)" "\<not> passed key (slot_at d ?h n)"
    using first_not_passed [OF sh i] by blast
  let ?c = "capacity32 d"
  from FEOIE_cases [OF sh n] show ?thesis
  proof
    assume "\<exists>s. slot_at d ?h n = Str s \<and> KeyIsMatch key s \<and>
            FindEntryOrInsertionEntry d key ?h = Some (Entry (probe ?h ?c n))"
    then obtain s where s: "slot_at d ?h n = Str s" "KeyIsMatch key s"
      "FindEntryOrInsertionEntry d key ?h = Some (Entry (probe ?h ?c n))" by blast
    have "LookupKey t key = Some (s, d)"
      using miss d(1) s by (simp add: LookupKey_def Get_probe [OF sh])
    then show ?thesis using d n(1) s(1,2) by blast
  next
    assume "slot_at d ?h n = empty_element \<and>
          (\<exists>m\<le>n. (\<forall>j<m. passed key (slot_at d ?h j) \<and> is_string (slot_at d ?h j)) \<and>
             \<not> is_string (slot_at d ?h m) \<and>
             FindEntryOrInsertionEntry d key ?h = Some (Entry (probe ?h ?c m)))"
    then obtain m where m: "\<forall>j<m. passed key (slot_at d ?h j) \<and> is_string (slot_at d ?h j)"
      "\<not> is_string (slot_at d ?h m)"
      "FindEntryOrInsertionEntry d key ?h = Some (Entry (probe ?h ?c m))" by blast
    let ?s = "Set d (probe ?h ?c m) (key_string key)"
    define t1 where "t1 = (if slot_at d ?h m = empty_element then ElementAdded ?s
                           else DeletedElementOverwritten ?s)"
    have "LookupKey t key = Some (key_string key, t1)"
      using miss d(1) m(2,3) unfolding t1_def
      by (cases "slot_at d ?h m") (simp_all add: LookupKey_def Get_probe [OF sh] is_string_def Let_def)
    moreover have "elements t1 = (elements d)[unat (probe ?h ?c m) := Str (key_string key)]"
      "capacity t1 = capacity d" "number_of_elements t1 = number_of_elements d + 1"
      unfolding t1_def by simp_all
    ultimately show ?thesis using d m(1,2) by blast
  qed
qed






lemma is_power_of_two_2048: "is_power_of_two 2048"
  unfolding is_power_of_two_iff by (rule exI[of _ 11]) simp

lemma is_power_of_two_4096: "is_power_of_two 4096"
  unfolding is_power_of_two_iff by (rule exI[of _ 12]) simp


lemma HasSufficient_bound:
  assumes "StringTableHasSufficientCapacityToAdd c n del 1" "0 \<le> n"
  shows "(n + 1) + (n + 1) div 2 \<le> c"
  using assms by (simp add: StringTableHasSufficientCapacityToAdd_def Let_def cdiv_nonneg split: if_splits)

lemma LookupKey_occupancy:
  assumes inv: "data_inv t" and small: "number_of_elements t < 2 ^ 29"
    and miss: "FindEntry t key (key_hash key) = Some NotFound"
  shows "\<exists>r t1. LookupKey t key = Some (r, t1) \<and>
           number_of_elements t1 + number_of_elements t1 div 2 \<le> capacity t1"
proof -
  from LookupKey_miss [OF inv small miss]
  obtain d where d: "data_inv d"
    "StringTableHasSufficientCapacityToAdd (capacity d) (number_of_elements d)
             (number_of_deleted_elements d) 1"
    "(\<exists>n s. LookupKey t key = Some (s, d)) \<or>
     (\<exists>t1. LookupKey t key = Some (key_string key, t1) \<and> capacity t1 = capacity d \<and>
                    number_of_elements t1 = number_of_elements d + 1)"
    by blast
  have n0: "0 \<le> number_of_elements d" using d(1) by (rule inv_nof_nonneg)
  have b: "(number_of_elements d + 1) + (number_of_elements d + 1) div 2 \<le> capacity d"
    using d(2) n0 by (rule HasSufficient_bound)
  from d(3) show ?thesis
  proof
    assume "\<exists>n s. LookupKey t key = Some (s, d)"
    then obtain s where "LookupKey t key = Some (s, d)" by blast
    moreover have "number_of_elements d + number_of_elements d div 2 \<le> capacity d"
      using b n0 by linarith
    ultimately show ?thesis by blast
  next
    assume "\<exists>t1. LookupKey t key = Some (key_string key, t1) \<and> capacity t1 = capacity d \<and>
                    number_of_elements t1 = number_of_elements d + 1"
    then show ?thesis using b by auto
  qed
qed

lemma table_2730_inv: "data_inv table_2730"
  by (simp add: data_inv_def data_shape_def table_2730_def is_power_of_two_4096 is_string_def filter_map o_def)

lemma table_2730_find: "FindEntry table_2730 key_2730 (key_hash key_2730) = Some NotFound"
  unfolding FindEntry_def
  by (subst FindEntry_loop.simps) (simp add: table_2730_def key_2730_def Get_def FirstProbe_def capacity32_def nth_append)

lemma table_2730_ensure: "EnsureCapacity table_2730 1 = Some table_2730"
  by (simp add: EnsureCapacity_eq table_2730_def StringTableHasSufficientCapacityToAdd_def cdiv_def Let_def)

lemma table_2730_feoie: "FindEntryOrInsertionEntry table_2730 key_2730 (key_hash key_2730) = Some (Entry 2730)"
  unfolding FindEntryOrInsertionEntry_def
  by (subst FindEntryOrInsertionEntry_loop.simps) (simp add: table_2730_def key_2730_def Get_def FirstProbe_def capacity32_def nth_append)

lemma table_2730_lookup:
  "map_option (\<lambda>(r, t1). (ptr r, number_of_elements t1, capacity t1)) (LookupKey table_2730 key_2730) = Some (5000, 2731, 4096)"
  by (simp add: LookupKey_def table_2730_find table_2730_ensure table_2730_feoie)
    (simp add: table_2730_def key_2730_def Get_def nth_append Let_def)



lemma in_strings_of: "s \<in> set (strings_of es) \<longleftrightarrow> (\<exists>i<length es. es ! i = Str s)"
proof -
  have "s \<in> set (strings_of es) \<longleftrightarrow> Str s \<in> set es"
  proof (induction es)
    case Nil then show ?case by simp
  next
    case (Cons e es) then show ?case by (cases e) auto
  qed
  then show ?thesis by (simp add: in_set_conv_nth)
qed

lemma KeyIsMatch_key_of: "KeyIsMatch (key_of s) s' \<longleftrightarrow> hash s' = hash s \<and> chars s' = chars s"
  by (auto simp: KeyIsMatch_def IsMatch_def key_of_def)

lemma reachable_find:
  assumes sh: "data_shape d" and r: "reachable d"
    and i: "i < length (elements d)" "elements d ! i = Str s"
  shows "\<exists>e s'. FindEntry d (key_of s) (hash s) = Some (Entry e) \<and> Get d e = Some (Str s') \<and>
           hash s' = hash s \<and> chars s' = chars s"
proof -
  let ?k = "key_of s" and ?h = "hash s"
  obtain n where n: "unat (probe ?h (capacity32 d) n) = i" "\<forall>j<n. is_string (slot_at d ?h j)"
    using r i unfolding reachable_def by blast
  have "slot_at d ?h n = Str s" using n(1) i(2) by (simp add: slot_at_def)
  then have np: "\<not> passed ?k (slot_at d ?h n)" by (simp add: passed_def KeyIsMatch_key_of)
  define m where "m = (LEAST m. \<not> passed ?k (slot_at d ?h m))"
  have stop: "\<not> passed ?k (slot_at d ?h m)" unfolding m_def using np by (rule LeastI)
  have before: "\<forall>j<m. passed ?k (slot_at d ?h j)" unfolding m_def using not_less_Least by blast
  have "m \<le> n" unfolding m_def using np by (rule Least_le)
  have "slot_at d ?h m \<noteq> empty_element"
  proof (cases "m = n")
    case True
    then show ?thesis using \<open>slot_at d ?h n = Str s\<close> by simp
  next
    case False
    then have "m < n" using \<open>m \<le> n\<close> by simp
    then have "is_string (slot_at d ?h m)" using n(2) by blast
    then show ?thesis by (auto simp: is_string_def)
  qed
  then obtain s' where s': "slot_at d ?h m = Str s'" "KeyIsMatch ?k s'"
    using not_passed_cases [OF stop] by blast
  have "FindEntry d ?k ?h = Some (Entry (probe ?h (capacity32 d) m))"
    using sh before s' by (rule FindEntry_found_at)
  moreover have "Get d (probe ?h (capacity32 d) m) = Some (Str s')"
    using s'(1) by (simp add: Get_probe [OF sh])
  ultimately show ?thesis using s'(2) by (auto simp: KeyIsMatch_key_of)
qed

lemma Get_in_strings_of: "Get d e = Some (Str s) \<Longrightarrow> s \<in> set (strings_of (elements d))"
  by (auto simp: Get_def in_strings_of split: if_splits)

lemma Resize_membership:
  assumes inv: "data_inv d" and p: "is_power_of_two cap" and lt: "number_of_elements d < cap"
  shows "\<exists>d'. Resize d cap = Some d' \<and>
           mset (strings_of (elements d')) = mset (strings_of (elements d)) \<and>
           number_of_elements d' = number_of_elements d \<and>
           number_of_deleted_elements d' = 0 \<and>
           deleted_element \<notin> set (elements d') \<and>
           capacity d' = cap \<and> previous_data d' = Some d \<and>
           (\<forall>s\<in>set (strings_of (elements d)).
              \<exists>e s'. FindEntry d' (key_of s) (hash s) = Some (Entry e) \<and>
                     Get d' e = Some (Str s') \<and> hash s' = hash s \<and> chars s' = chars s \<and>
                     (distinct (map (\<lambda>s. (hash s, chars s)) (strings_of (elements d)))
                        \<longrightarrow> s' = s))"
proof -
  obtain d' where d': "Resize d cap = Some d'" "data_inv d'" "capacity d' = cap"
    "number_of_elements d' = number_of_elements d" "number_of_deleted_elements d' = 0"
    "deleted_element \<notin> set (elements d')" "reachable d'" "previous_data d' = Some d"
    "mset (strings_of (elements d')) = mset (strings_of (elements d))"
    using Resize_ok [OF inv p lt] by blast
  have sh: "data_shape d'" using d'(2) by (simp add: data_inv_def)
  have sets: "set (strings_of (elements d')) = set (strings_of (elements d))"
    using d'(9) by (rule mset_eq_setD)
  let ?f = "\<lambda>s. (hash s, chars s)"
  have "\<exists>e s'. FindEntry d' (key_of s) (hash s) = Some (Entry e) \<and>
                     Get d' e = Some (Str s') \<and> hash s' = hash s \<and> chars s' = chars s \<and>
                     (distinct (map ?f (strings_of (elements d))) \<longrightarrow> s' = s)"
    if s: "s \<in> set (strings_of (elements d))" for s
  proof -
    from s obtain i where i: "i < length (elements d')" "elements d' ! i = Str s"
      unfolding sets [symmetric] in_strings_of by blast
    obtain e s' where f: "FindEntry d' (key_of s) (hash s) = Some (Entry e)"
      "Get d' e = Some (Str s')" "hash s' = hash s" "chars s' = chars s"
      using reachable_find [OF sh d'(7) i] by blast
    have "s' = s" if dist: "distinct (map ?f (strings_of (elements d)))"
    proof -
      have "mset (map ?f (strings_of (elements d'))) = mset (map ?f (strings_of (elements d)))"
        using d'(9) by simp
      from mset_eq_imp_distinct_iff [OF this]
      have "distinct (map ?f (strings_of (elements d')))"
        using dist by blast
      then have "inj_on ?f (set (strings_of (elements d')))" by (simp add: distinct_map)
      moreover have "s' \<in> set (strings_of (elements d'))" using f(2) by (rule Get_in_strings_of)
      moreover have "s \<in> set (strings_of (elements d'))" using s sets by simp
      ultimately show ?thesis using f(3,4) by (auto dest: inj_onD)
    qed
    then show ?thesis using f by blast
  qed
  then show ?thesis using d' by blast
qed

subsection \<open>The claims about the string table\<close>



text \<open>
  C2 (amended). After a call of \<open>StringTable::LookupKey\<close> that misses in its unlocked read
  and so takes the insertion path, the current generation satisfies
  \<open>occupied + occupied div 2 \<le> capacity\<close>, the bound that \<open>EnsureCapacity\<close> establishes
  with \<open>StringTableHasSufficientCapacityToAdd\<close> before the element is written.
\<close>

theorem C2_occupancy_after_insertion:
  assumes "data_inv t" "number_of_elements t < 2 ^ 29"
    and "FindEntry t key (key_hash key) = Some NotFound"
  shows "\<exists>r t1. LookupKey t key = Some (r, t1) \<and>
           number_of_elements t1 + number_of_elements t1 div 2 \<le> capacity t1"
  using assms by (rule LookupKey_occupancy)

theorem C2_occupancy_after_insertion_witness:
  "data_inv table_2730 \<and> number_of_elements table_2730 < 2 ^ 29 \<and>
   FindEntry table_2730 key_2730 (key_hash key_2730) = Some NotFound \<and>
   (\<exists>r t1. LookupKey table_2730 key_2730 = Some (r, t1) \<and>
      number_of_elements t1 + number_of_elements t1 div 2 \<le> capacity t1)"
proof -
  have n: "number_of_elements table_2730 < 2 ^ 29" by (simp add: table_2730_def)
  from C2_occupancy_after_insertion [OF table_2730_inv n table_2730_find] show ?thesis
    using table_2730_inv n table_2730_find by blast
qed

text \<open>
  C2 as stated fails by half a slot: the insertion of one more string into a well-formed
  generation of capacity 4096 that holds 2730 strings needs no resize and leaves 2731
  strings, and \<open>2731 * 1.5 = 4096.5\<close> exceeds 4096.
\<close>

theorem C2_one_and_a_half_counterexample:
  "data_inv table_2730 \<and>
   map_option (number_of_elements \<circ> snd) (LookupKey table_2730 key_2730) = Some 2731 \<and>
   map_option (capacity \<circ> snd) (LookupKey table_2730 key_2730) = Some 4096 \<and>
   \<not> (2731 * 3 \<le> (4096::int) * 2)"
proof -
  obtain r t1 where l: "LookupKey table_2730 key_2730 = Some (r, t1)"
    and "(ptr r, number_of_elements t1, capacity t1) = (5000, 2731, 4096)"
    using table_2730_lookup by auto
  then show ?thesis using table_2730_inv by simp
qed

text \<open>
  C3. \<open>StringTable::Data::Resize\<close> returns a new generation that holds the strings of the
  old one, each exactly as often as before (no loss and no duplication), with the old
  element count, a deleted-element count of zero and no deleted sentinel in any slot; and
  every string of the old generation is found in the new one by \<open>FindEntry\<close> with its own
  hash: the entry found has its hash and its content, and is the very string when no two
  strings of the old generation have the same hash and content.
\<close>

theorem C3_resize_preserves_entries:
  assumes "data_inv d" "is_power_of_two cap" "number_of_elements d < cap"
  shows "\<exists>d'. Resize d cap = Some d' \<and>
           mset (strings_of (elements d')) = mset (strings_of (elements d)) \<and>
           number_of_elements d' = number_of_elements d \<and>
           number_of_deleted_elements d' = 0 \<and>
           deleted_element \<notin> set (elements d') \<and>
           capacity d' = cap \<and> previous_data d' = Some d \<and>
           (\<forall>s\<in>set (strings_of (elements d)).
              \<exists>e s'. FindEntry d' (key_of s) (hash s) = Some (Entry e) \<and>
                     Get d' e = Some (Str s') \<and> hash s' = hash s \<and> chars s' = chars s \<and>
                     (distinct (map (\<lambda>s. (hash s, chars s)) (strings_of (elements d)))
                        \<longrightarrow> s' = s))"
  using assms by (rule Resize_membership)

lemma table_one_inv: "data_inv table_one"
  by (simp add: data_inv_def data_shape_def table_one_def is_power_of_two_2048 is_string_def)

theorem C3_resize_preserves_entries_witness:
  "data_inv table_one \<and> is_power_of_two 4096 \<and> number_of_elements table_one < 4096 \<and>
   strings_of (elements table_one) = [\<lparr>ptr = 100, hash = 7, chars = [102, 111, 111]\<rparr>] \<and>
   (\<exists>d'. Resize table_one 4096 = Some d' \<and>
      mset (strings_of (elements d')) = {#\<lparr>ptr = 100, hash = 7, chars = [102, 111, 111]\<rparr>#} \<and>
      number_of_elements d' = 1 \<and> number_of_deleted_elements d' = 0 \<and>
      (\<exists>e. FindEntry d' (key_of \<lparr>ptr = 100, hash = 7, chars = [102, 111, 111]\<rparr>) 7 = Some (Entry e) \<and>
           Get d' e = Some (Str \<lparr>ptr = 100, hash = 7, chars = [102, 111, 111]\<rparr>)))"
proof -
  have n: "number_of_elements table_one < 4096" by (simp add: table_one_def)
  have s: "strings_of (elements table_one) = [\<lparr>ptr = 100, hash = 7, chars = [102, 111, 111]\<rparr>]"
    by (simp add: table_one_def)
  have e: "number_of_elements table_one = 1" by (simp add: table_one_def)
  let ?s = "\<lparr>ptr = 100, hash = 7, chars = [102, 111, 111]\<rparr>"
  from C3_resize_preserves_entries [OF table_one_inv is_power_of_two_4096 n]
  obtain d' where d': "Resize table_one 4096 = Some d'"
    "mset (strings_of (elements d')) = mset (strings_of (elements table_one))"
    "number_of_elements d' = number_of_elements table_one"
    "number_of_deleted_elements d' = 0"
    and f: "\<forall>s\<in>set (strings_of (elements table_one)).
              \<exists>e s'. FindEntry d' (key_of s) (hash s) = Some (Entry e) \<and>
                     Get d' e = Some (Str s') \<and> hash s' = hash s \<and> chars s' = chars s \<and>
                     (distinct (map (\<lambda>s. (hash s, chars s)) (strings_of (elements table_one)))
                        \<longrightarrow> s' = s)"
    by blast
  have "?s \<in> set (strings_of (elements table_one))" unfolding s by simp
  with f obtain e' s' where g: "FindEntry d' (key_of ?s) (hash ?s) = Some (Entry e')"
    "Get d' e' = Some (Str s')"
    "distinct (map (\<lambda>s. (hash s, chars s)) (strings_of (elements table_one))) \<longrightarrow> s' = ?s"
    by blast
  have "distinct (map (\<lambda>s. (hash s, chars s)) (strings_of (elements table_one)))"
    unfolding s by simp
  then have "s' = ?s" using g(3) by blast
  then have "\<exists>e. FindEntry d' (key_of ?s) 7 = Some (Entry e) \<and> Get d' e = Some (Str ?s)"
    using g(1,2) by auto
  moreover have "mset (strings_of (elements d')) = {#?s#}" using d'(2) unfolding s by simp
  moreover have "number_of_elements d' = 1" using d'(3) e by simp
  ultimately have "\<exists>d'. Resize table_one 4096 = Some d' \<and>
      mset (strings_of (elements d')) = {#?s#} \<and>
      number_of_elements d' = 1 \<and> number_of_deleted_elements d' = 0 \<and>
      (\<exists>e. FindEntry d' (key_of ?s) 7 = Some (Entry e) \<and> Get d' e = Some (Str ?s))"
    using d'(1,4) by blast
  then show ?thesis by (intro conjI table_one_inv is_power_of_two_4096 n s)
qed






section \<open>Properties of the register allocator\<close>

subsection \<open>Spill slots\<close>

lemma upper_bound_loop_range:
  "first + len \<le> length xs \<Longrightarrow>
   first \<le> upper_bound_loop cmp v xs first len \<and>
   upper_bound_loop cmp v xs first len \<le> first + len \<and>
   (upper_bound_loop cmp v xs first len < first + len \<longrightarrow>
      cmp v (xs ! upper_bound_loop cmp v xs first len))"
proof (induction cmp v xs first len rule: upper_bound_loop.induct)
  case (1 cmp v xs first len)
  show ?case
  proof (cases "0 < len")
    case False
    then show ?thesis by (subst (1 2 3 4) upper_bound_loop.simps) simp
  next
    case True
    define half where "half = len div 2"
    define middle where "middle = first + half"
    have hl: "half < len" using True by (simp add: half_def)
    show ?thesis
    proof (cases "cmp v (xs ! middle)")
      case c: True
      have e: "upper_bound_loop cmp v xs first len = upper_bound_loop cmp v xs first half"
        using True c by (subst upper_bound_loop.simps) (simp add: half_def middle_def Let_def)
      have "first + half \<le> length xs" using hl "1.prems" by simp
      from "1.IH"(1) [OF True half_def middle_def c this]
      have ih: "first \<le> upper_bound_loop cmp v xs first half"
        "upper_bound_loop cmp v xs first half \<le> first + half"
        "upper_bound_loop cmp v xs first half < first + half \<longrightarrow>
           cmp v (xs ! upper_bound_loop cmp v xs first half)" by simp_all
      have "cmp v (xs ! upper_bound_loop cmp v xs first half)"
      proof (cases "upper_bound_loop cmp v xs first half < first + half")
        case True then show ?thesis using ih(3) by simp
      next
        case False
        then have "upper_bound_loop cmp v xs first half = middle" using ih(2) by (simp add: middle_def)
        then show ?thesis using c by simp
      qed
      then show ?thesis unfolding e using ih(1,2) hl by simp
    next
      case c: False
      have e: "upper_bound_loop cmp v xs first len =
               upper_bound_loop cmp v xs (middle + 1) (len - half - 1)"
        using True c by (subst upper_bound_loop.simps) (simp add: half_def middle_def Let_def)
      have r: "middle + 1 + (len - half - 1) = first + len" using hl by (simp add: middle_def)
      then have "middle + 1 + (len - half - 1) \<le> length xs" using "1.prems" by simp
      from "1.IH"(2) [OF True half_def middle_def c this]
      show ?thesis unfolding e r by (simp add: middle_def)
    qed
  qed
qed

lemma upper_bound_range:
  "upper_bound cmp v xs \<le> length xs \<and>
   (upper_bound cmp v xs < length xs \<longrightarrow> cmp v (xs ! upper_bound cmp v xs))"
  using upper_bound_loop_range [of 0 "length xs" xs cmp v] by (simp add: upper_bound_def)

lemma upper_bound_loop_all:
  "first + len \<le> length xs \<Longrightarrow> \<forall>i<length xs. cmp v (xs ! i) \<Longrightarrow>
   upper_bound_loop cmp v xs first len = first"
proof (induction cmp v xs first len rule: upper_bound_loop.induct)
  case (1 cmp v xs first len)
  show ?case
  proof (cases "0 < len")
    case False
    then show ?thesis by (subst upper_bound_loop.simps) simp
  next
    case True
    define half where "half = len div 2"
    define middle where "middle = first + half"
    have hl: "half < len" using True by (simp add: half_def)
    then have c: "cmp v (xs ! middle)" using "1.prems" by (simp add: middle_def)
    have e: "upper_bound_loop cmp v xs first len = upper_bound_loop cmp v xs first half"
      using True c by (subst upper_bound_loop.simps) (simp add: half_def middle_def Let_def)
    have "first + half \<le> length xs" using hl "1.prems" by simp
    from "1.IH"(1) [OF True half_def middle_def c this "1.prems"(2)] show ?thesis unfolding e .
  qed
qed

lemma upper_bound_all: "\<forall>e\<in>set xs. cmp v e \<Longrightarrow> upper_bound cmp v xs = 0"
  unfolding upper_bound_def by (rule upper_bound_loop_all) simp_all

lemma upper_bound_none: "\<forall>e\<in>set xs. \<not> cmp v e \<Longrightarrow> upper_bound cmp v xs = length xs"
  using upper_bound_range [of cmp v xs] by (metis nth_mem le_neq_implies_less)

lemma AllocateSpillSlot_in_cases:
  assumes "free_slots slots \<noteq> []"
  shows "(upper_bound (\<lambda>s slot_info. freed_at_position slot_info < s) start (free_slots slots)
            < length (free_slots slots) \<longrightarrow>
          freed_at_position (free_slots slots !
              upper_bound (\<lambda>s slot_info. freed_at_position slot_info < s) start (free_slots slots))
            < start \<and>
          AllocateSpillSlot_in slots start =
            (slot_index (free_slots slots !
               upper_bound (\<lambda>s slot_info. freed_at_position slot_info < s) start (free_slots slots)),
             slots\<lparr>free_slots :=
               take (upper_bound (\<lambda>s slot_info. freed_at_position slot_info < s) start (free_slots slots))
                 (free_slots slots) @
               drop (Suc (upper_bound (\<lambda>s slot_info. freed_at_position slot_info < s) start
                            (free_slots slots)))
                 (free_slots slots)\<rparr>)) \<and>
         (\<not> upper_bound (\<lambda>s slot_info. freed_at_position slot_info < s) start (free_slots slots)
            < length (free_slots slots) \<longrightarrow>
          AllocateSpillSlot_in slots start =
            (slot_top slots, slots\<lparr>slot_top := slot_top slots + 1\<rparr>))"
proof -
  let ?it = "upper_bound (\<lambda>s slot_info. freed_at_position slot_info < s) start (free_slots slots)"
  have r: "?it \<le> length (free_slots slots)"
    "?it < length (free_slots slots) \<longrightarrow> freed_at_position (free_slots slots ! ?it) < start"
    using upper_bound_range [of "\<lambda>s slot_info. freed_at_position slot_info < s" start "free_slots slots"]
    by simp_all
  show ?thesis
  proof (cases "?it < length (free_slots slots)")
    case True
    then show ?thesis using assms r(2) by (simp add: AllocateSpillSlot_in_def Let_def)
  next
    case False
    then have "?it = length (free_slots slots)" using r(1) by simp
    then show ?thesis using assms by (simp add: AllocateSpillSlot_in_def Let_def)
  qed
qed


lemma AllocateSpillSlot_result:
  assumes "AllocateSpillSlot_in (slots_of (is_tagged (nodes a n)) a)
             (range_start (live_range (nodes a n))) = (free_slot, slots')"
  shows "spill_or_hint (nodes (AllocateSpillSlot n a) n) =
           StackSlot (is_tagged (nodes a n)) (int free_slot)"
    "slots_of (is_tagged (nodes a n)) (AllocateSpillSlot n a) = slots'"
    "m \<noteq> n \<Longrightarrow> nodes (AllocateSpillSlot n a) m = nodes a m"
    "general_registers (AllocateSpillSlot n a) = general_registers a"
    "double_registers (AllocateSpillSlot n a) = double_registers a"
    "result_registers (nodes (AllocateSpillSlot n a) m) = result_registers (nodes a m)"
    "live_range (nodes (AllocateSpillSlot n a) m) = live_range (nodes a m)"
    "current_node (AllocateSpillSlot n a) = current_node a"
  using assms by (auto simp: AllocateSpillSlot_def slots_of_def Let_def)


text \<open>
  C6 (amended). With a non-empty free list, \<open>AllocateSpillSlot\<close> searches the free list
  with \<open>std::upper_bound\<close> and the comparison \<open>freed_at_position < start\<close>. An entry the
  search returns was freed strictly before the start of the value's live range; its slot
  index becomes the spill slot of the value and the entry is erased. When the search
  returns no entry, as it does when no entry was freed before the start, the spill slot is
  the top counter, which is incremented. When all entries were freed before the start,
  the first entry is the one reused.
\<close>

theorem C6_spill_slot_reuse:
  assumes "free_slots (slots_of (is_tagged (nodes a n)) a) \<noteq> []"
  shows "let tg = is_tagged (nodes a n);
             fs = free_slots (slots_of tg a);
             start = range_start (live_range (nodes a n));
             it = upper_bound (\<lambda>s slot_info. freed_at_position slot_info < s) start fs;
             a' = AllocateSpillSlot n a
         in (it < length fs \<longrightarrow>
               freed_at_position (fs ! it) < start \<and>
               spill_or_hint (nodes a' n) = StackSlot tg (int (slot_index (fs ! it))) \<and>
               free_slots (slots_of tg a') = take it fs @ drop (Suc it) fs \<and>
               slot_top (slots_of tg a') = slot_top (slots_of tg a)) \<and>
            (\<not> it < length fs \<longrightarrow>
               spill_or_hint (nodes a' n) = StackSlot tg (int (slot_top (slots_of tg a))) \<and>
               free_slots (slots_of tg a') = fs \<and>
               slot_top (slots_of tg a') = slot_top (slots_of tg a) + 1) \<and>
            ((\<forall>e\<in>set fs. \<not> freed_at_position e < start) \<longrightarrow> \<not> it < length fs) \<and>
            ((\<forall>e\<in>set fs. freed_at_position e < start) \<longrightarrow> it = 0)"
proof -
  define tg where "tg = is_tagged (nodes a n)"
  define fs where "fs = free_slots (slots_of tg a)"
  define start where "start = range_start (live_range (nodes a n))"
  define it where "it = upper_bound (\<lambda>s slot_info. freed_at_position slot_info < s) start fs"
  define a' where "a' = AllocateSpillSlot n a"
  have ne: "free_slots (slots_of tg a) \<noteq> []" using assms by (simp add: tg_def)
  note c = AllocateSpillSlot_in_cases [OF ne, of start, folded fs_def, folded it_def]
  obtain free_slot slots' where r: "AllocateSpillSlot_in (slots_of tg a) start = (free_slot, slots')"
    by (cases "AllocateSpillSlot_in (slots_of tg a) start") blast
  have res: "spill_or_hint (nodes a' n) = StackSlot tg (int free_slot)" "slots_of tg a' = slots'"
    using AllocateSpillSlot_result(1,2) [OF r [unfolded tg_def start_def]]
    by (simp_all add: a'_def tg_def)
  have 1: "it < length fs \<longrightarrow>
               freed_at_position (fs ! it) < start \<and>
               spill_or_hint (nodes a' n) = StackSlot tg (int (slot_index (fs ! it))) \<and>
               free_slots (slots_of tg a') = take it fs @ drop (Suc it) fs \<and>
               slot_top (slots_of tg a') = slot_top (slots_of tg a)"
    using c r res by auto
  have 2: "\<not> it < length fs \<longrightarrow>
               spill_or_hint (nodes a' n) = StackSlot tg (int (slot_top (slots_of tg a))) \<and>
               free_slots (slots_of tg a') = fs \<and>
               slot_top (slots_of tg a') = slot_top (slots_of tg a) + 1"
    using c r res by (auto simp: fs_def)
  have 3: "(\<forall>e\<in>set fs. \<not> freed_at_position e < start) \<longrightarrow> \<not> it < length fs"
    using upper_bound_none [of fs "\<lambda>s slot_info. freed_at_position slot_info < s" start]
    by (auto simp: it_def)
  have 4: "(\<forall>e\<in>set fs. freed_at_position e < start) \<longrightarrow> it = 0"
    using upper_bound_all [of fs "\<lambda>s slot_info. freed_at_position slot_info < s" start]
    by (auto simp: it_def)
  show ?thesis
    unfolding Let_def tg_def [symmetric] fs_def [symmetric] start_def [symmetric]
      it_def [symmetric] a'_def [symmetric]
    using 1 2 3 4 by blast
qed

lemma upper_bound_two:
  "upper_bound (\<lambda>s slot_info. freed_at_position slot_info < s) 6
     [\<lparr>slot_index = 1, freed_at_position = 2\<rparr>, \<lparr>slot_index = 3, freed_at_position = 5\<rparr>] = 0"
  by (rule upper_bound_all) simp

theorem C6_spill_slot_reuse_witness:
  "free_slots (slots_of (is_tagged (nodes
       (allocator_with [\<lparr>slot_index = 1, freed_at_position = 2\<rparr>,
                        \<lparr>slot_index = 3, freed_at_position = 5\<rparr>] 6) 0))
     (allocator_with [\<lparr>slot_index = 1, freed_at_position = 2\<rparr>,
                      \<lparr>slot_index = 3, freed_at_position = 5\<rparr>] 6)) \<noteq> [] \<and>
   spill_or_hint (nodes (AllocateSpillSlot 0
       (allocator_with [\<lparr>slot_index = 1, freed_at_position = 2\<rparr>,
                        \<lparr>slot_index = 3, freed_at_position = 5\<rparr>] 6)) 0) = StackSlot True 1 \<and>
   free_slots (tagged (AllocateSpillSlot 0
       (allocator_with [\<lparr>slot_index = 1, freed_at_position = 2\<rparr>,
                        \<lparr>slot_index = 3, freed_at_position = 5\<rparr>] 6))) =
     [\<lparr>slot_index = 3, freed_at_position = 5\<rparr>]"
proof -
  let ?a = "allocator_with [\<lparr>slot_index = 1, freed_at_position = 2\<rparr>,
                            \<lparr>slot_index = 3, freed_at_position = 5\<rparr>] 6"
  have h: "free_slots (slots_of (is_tagged (nodes ?a 0)) ?a) \<noteq> []"
    by (simp add: allocator_with_def slots_of_def value_from_def)
  have f: "is_tagged (nodes ?a 0) = True"
    "free_slots (slots_of True ?a) = [\<lparr>slot_index = 1, freed_at_position = 2\<rparr>,
                            \<lparr>slot_index = 3, freed_at_position = 5\<rparr>]"
    "range_start (live_range (nodes ?a 0)) = 6"
    by (simp_all add: allocator_with_def slots_of_def value_from_def)
  from C6_spill_slot_reuse [OF h]
  have "spill_or_hint (nodes (AllocateSpillSlot 0 ?a) 0) = StackSlot True 1"
    "free_slots (slots_of True (AllocateSpillSlot 0 ?a)) = [\<lparr>slot_index = 3, freed_at_position = 5\<rparr>]"
    unfolding Let_def f upper_bound_two by simp_all
  then show ?thesis using h by (simp add: slots_of_def)
qed

text \<open>
  C6 as stated fails: the only entry of the free list was freed at position 5 and the
  live range of the new value starts at 5, so the entry satisfies
  \<open>freed_at_position \<le> start\<close>; the search does not return it, and the value gets the
  fresh slot 4.
\<close>

theorem C6_freed_at_start_counterexample:
  "freed_at_position \<lparr>slot_index = 3, freed_at_position = 5\<rparr>
     \<le> range_start (live_range (nodes (allocator_with [\<lparr>slot_index = 3, freed_at_position = 5\<rparr>] 5) 0)) \<and>
   spill_or_hint (nodes (AllocateSpillSlot 0
      (allocator_with [\<lparr>slot_index = 3, freed_at_position = 5\<rparr>] 5)) 0) = StackSlot True 4 \<and>
   slot_top (tagged (AllocateSpillSlot 0
      (allocator_with [\<lparr>slot_index = 3, freed_at_position = 5\<rparr>] 5))) = 5 \<and>
   free_slots (tagged (AllocateSpillSlot 0
      (allocator_with [\<lparr>slot_index = 3, freed_at_position = 5\<rparr>] 5))) =
     [\<lparr>slot_index = 3, freed_at_position = 5\<rparr>]"
proof -
  have u: "upper_bound (\<lambda>s slot_info. freed_at_position slot_info < s) 5
     [\<lparr>slot_index = 3, freed_at_position = 5\<rparr>] = 1"
    using upper_bound_none [of "[\<lparr>slot_index = 3, freed_at_position = 5\<rparr>]"
        "\<lambda>s slot_info. freed_at_position slot_info < s" 5] by simp
  show ?thesis
    by (simp add: AllocateSpillSlot_def AllocateSpillSlot_in_def allocator_with_def value_from_def
        Let_def u)
qed





subsection \<open>The register to free\<close>

lemma FreeSomeRegister_loop_first:
  assumes "\<forall>r\<in>set pre. \<not> dies_at_current a registers stage r \<and> \<not> in_several_registers a registers r"
    and "dies_at_current a registers stage reg \<or> in_several_registers a registers reg"
  shows "FreeSomeRegister_loop a registers stage (pre @ reg # post) furthest_use best = Some reg"
  using assms(1)
proof (induction pre arbitrary: furthest_use best)
  case Nil
  then show ?case using assms(2)
    by (auto simp: dies_at_current_def in_several_registers_def Let_def split: RegisterValue.splits)
next
  case (Cons r pre)
  then show ?case
    by (auto simp: dies_at_current_def in_several_registers_def Let_def split: RegisterValue.splits)
qed

lemma FreeSomeRegister_loop_furthest:
  assumes "\<forall>r\<in>set rs. \<not> dies_at_current a registers stage r \<and> \<not> in_several_registers a registers r"
  shows "(FreeSomeRegister_loop a registers stage rs furthest_use best = best \<and>
          (\<forall>r\<in>set rs. \<forall>u. candidate_use a registers r = Some u \<longrightarrow> u \<le> furthest_use)) \<or>
         (\<exists>r\<in>set rs. \<exists>u. FreeSomeRegister_loop a registers stage rs furthest_use best = Some r \<and>
            candidate_use a registers r = Some u \<and> furthest_use < u \<and>
            (\<forall>r'\<in>set rs. \<forall>u'. candidate_use a registers r' = Some u' \<longrightarrow> u' \<le> u))"
  using assms
proof (induction rs arbitrary: furthest_use best)
  case Nil
  then show ?case by simp
next
  case (Cons reg rest)
  then have rest: "\<forall>r\<in>set rest. \<not> dies_at_current a registers stage r \<and> \<not> in_several_registers a registers r"
    and reg: "\<not> dies_at_current a registers stage reg" "\<not> in_several_registers a registers reg"
    by simp_all
  show ?case
  proof (cases "GetValue registers reg")
    case kBlockedRegisterSentinel
    then have e: "FreeSomeRegister_loop a registers stage (reg # rest) furthest_use best =
                  FreeSomeRegister_loop a registers stage rest furthest_use best" by simp
    have c: "candidate_use a registers reg = None"
      using kBlockedRegisterSentinel by (simp add: candidate_use_def)
    from Cons.IH [OF rest, of furthest_use best] show ?thesis unfolding e using c by auto
  next
    case (Node v)
    define u0 where "u0 = int (next_use (nodes a v))"
    have c: "candidate_use a registers reg = Some u0" using Node by (simp add: candidate_use_def u0_def)
    have np: "\<not> (stage = kAtEnd \<and> range_end (live_range (nodes a v)) = current_node a)"
      "\<not> num_registers (nodes a v) > 1"
      using reg Node by (simp_all add: dies_at_current_def in_several_registers_def)
    show ?thesis
    proof (cases "u0 > furthest_use")
      case True
      have e: "FreeSomeRegister_loop a registers stage (reg # rest) furthest_use best =
                  FreeSomeRegister_loop a registers stage rest u0 (Some reg)"
        using Node np True by (auto simp add: Let_def u0_def)
      from Cons.IH [OF rest, of u0 "Some reg"] show ?thesis
      proof
        assume "FreeSomeRegister_loop a registers stage rest u0 (Some reg) = Some reg \<and>
          (\<forall>r\<in>set rest. \<forall>u. candidate_use a registers r = Some u \<longrightarrow> u \<le> u0)"
        then show ?thesis unfolding e using c True by auto
      next
        assume "\<exists>r\<in>set rest. \<exists>u. FreeSomeRegister_loop a registers stage rest u0 (Some reg) = Some r \<and>
            candidate_use a registers r = Some u \<and> u0 < u \<and>
            (\<forall>r'\<in>set rest. \<forall>u'. candidate_use a registers r' = Some u' \<longrightarrow> u' \<le> u)"
        then obtain r u where r: "r \<in> set rest"
          "FreeSomeRegister_loop a registers stage rest u0 (Some reg) = Some r"
          "candidate_use a registers r = Some u" "u0 < u"
          "\<forall>r'\<in>set rest. \<forall>u'. candidate_use a registers r' = Some u' \<longrightarrow> u' \<le> u" by blast
        have "furthest_use < u" using True r(4) by simp
        moreover have "\<forall>r'\<in>set (reg # rest). \<forall>u'. candidate_use a registers r' = Some u' \<longrightarrow> u' \<le> u"
          using r(4,5) c by auto
        ultimately show ?thesis unfolding e using r(1,2,3) by auto
      qed
    next
      case False
      have e: "FreeSomeRegister_loop a registers stage (reg # rest) furthest_use best =
                  FreeSomeRegister_loop a registers stage rest furthest_use best"
        using Node np False by (auto simp add: Let_def u0_def)
      from Cons.IH [OF rest, of furthest_use best] show ?thesis
      proof
        assume "FreeSomeRegister_loop a registers stage rest furthest_use best = best \<and>
          (\<forall>r\<in>set rest. \<forall>u. candidate_use a registers r = Some u \<longrightarrow> u \<le> furthest_use)"
        then show ?thesis unfolding e using c False by auto
      next
        assume "\<exists>r\<in>set rest. \<exists>u. FreeSomeRegister_loop a registers stage rest furthest_use best = Some r \<and>
            candidate_use a registers r = Some u \<and> furthest_use < u \<and>
            (\<forall>r'\<in>set rest. \<forall>u'. candidate_use a registers r' = Some u' \<longrightarrow> u' \<le> u)"
        then obtain r u where r: "r \<in> set rest"
          "FreeSomeRegister_loop a registers stage rest furthest_use best = Some r"
          "candidate_use a registers r = Some u" "furthest_use < u"
          "\<forall>r'\<in>set rest. \<forall>u'. candidate_use a registers r' = Some u' \<longrightarrow> u' \<le> u" by blast
        have "\<forall>r'\<in>set (reg # rest). \<forall>u'. candidate_use a registers r' = Some u' \<longrightarrow> u' \<le> u"
          using r(4,5) c False by auto
        then show ?thesis unfolding e using r(1,2,3,4) by auto
      qed
    qed
  qed
qed

lemma FreeSomeRegister_returns_best:
  "FreeSomeRegister c stage a = Some (reg, a') \<Longrightarrow> FreeSomeRegister_best c stage a = Some reg"
  by (auto simp: FreeSomeRegister_def split: option.splits)

lemma used_full: "sorted_list_of_set (used (registers_of GeneralRegisterT allocator_full)) = [0, 1, 2]"
  by (simp add: used_def registers_of_def allocator_full_def)

lemma used_plain: "sorted_list_of_set (used (registers_of GeneralRegisterT allocator_plain)) = [0, 1, 2]"
  by (simp add: used_def registers_of_def allocator_plain_def)

lemma best_full: "FreeSomeRegister_best GeneralRegisterT kAtEnd allocator_full = Some 0"
  by (simp add: FreeSomeRegister_best_def used_full)
     (simp add: registers_of_def allocator_full_def GetValue_def num_registers_def Let_def)

lemma best_plain: "FreeSomeRegister_best GeneralRegisterT kAtStart allocator_plain = Some 1"
  by (simp add: FreeSomeRegister_best_def used_plain)
     (simp add: registers_of_def allocator_plain_def GetValue_def num_registers_def Let_def value_in_def)

lemma free_plain: "map_option fst (FreeSomeRegister GeneralRegisterT kAtStart allocator_plain) = Some 1"
  by (simp add: FreeSomeRegister_def best_plain DropRegisterValue_def)
     (simp add: registers_of_def allocator_plain_def GetValue_def RemoveRegister_def Let_def
        value_in_def has_register_def is_loadable_def FreeIsEmpty_def)

text \<open>
  C8 (amended). \<open>FreeSomeRegister\<close> walks the used registers in the order of their codes and
  passes over the blocked ones. It frees the first register whose value either dies at
  the current node (when the stage is \<open>kAtEnd\<close>) or is held in more than one register,
  whichever of the two tests that register passes. When no used register passes a test,
  it frees a register whose value has the furthest next use, a use after position 0; no
  register is chosen when there is no such use.
\<close>

theorem C8_register_to_free:
  "(sorted_list_of_set (used (registers_of c a)) = pre @ reg # post \<and>
    (\<forall>r\<in>set pre. \<not> dies_at_current a (registers_of c a) stage r \<and>
                  \<not> in_several_registers a (registers_of c a) r) \<and>
    (dies_at_current a (registers_of c a) stage reg \<or>
     in_several_registers a (registers_of c a) reg)
      \<longrightarrow> FreeSomeRegister_best c stage a = Some reg) \<and>
   ((\<forall>r\<in>set (sorted_list_of_set (used (registers_of c a))).
        \<not> dies_at_current a (registers_of c a) stage r \<and>
        \<not> in_several_registers a (registers_of c a) r)
      \<longrightarrow> (FreeSomeRegister_best c stage a = None \<and>
           (\<forall>r\<in>set (sorted_list_of_set (used (registers_of c a))). \<forall>u.
              candidate_use a (registers_of c a) r = Some u \<longrightarrow> u \<le> 0)) \<or>
          (\<exists>r\<in>set (sorted_list_of_set (used (registers_of c a))). \<exists>u.
             FreeSomeRegister_best c stage a = Some r \<and>
             candidate_use a (registers_of c a) r = Some u \<and> 0 < u \<and>
             (\<forall>r'\<in>set (sorted_list_of_set (used (registers_of c a))). \<forall>u'.
                candidate_use a (registers_of c a) r' = Some u' \<longrightarrow> u' \<le> u))) \<and>
   (FreeSomeRegister c stage a = Some (freed, a')
      \<longrightarrow> FreeSomeRegister_best c stage a = Some freed)"
proof (intro conjI impI)
  assume "sorted_list_of_set (used (registers_of c a)) = pre @ reg # post \<and>
    (\<forall>r\<in>set pre. \<not> dies_at_current a (registers_of c a) stage r \<and>
                  \<not> in_several_registers a (registers_of c a) r) \<and>
    (dies_at_current a (registers_of c a) stage reg \<or>
     in_several_registers a (registers_of c a) reg)"
  then show "FreeSomeRegister_best c stage a = Some reg"
    unfolding FreeSomeRegister_best_def using FreeSomeRegister_loop_first by simp
next
  assume "\<forall>r\<in>set (sorted_list_of_set (used (registers_of c a))).
        \<not> dies_at_current a (registers_of c a) stage r \<and>
        \<not> in_several_registers a (registers_of c a) r"
  from FreeSomeRegister_loop_furthest [OF this, of 0 None]
  show "(FreeSomeRegister_best c stage a = None \<and>
           (\<forall>r\<in>set (sorted_list_of_set (used (registers_of c a))). \<forall>u.
              candidate_use a (registers_of c a) r = Some u \<longrightarrow> u \<le> 0)) \<or>
          (\<exists>r\<in>set (sorted_list_of_set (used (registers_of c a))). \<exists>u.
             FreeSomeRegister_best c stage a = Some r \<and>
             candidate_use a (registers_of c a) r = Some u \<and> 0 < u \<and>
             (\<forall>r'\<in>set (sorted_list_of_set (used (registers_of c a))). \<forall>u'.
                candidate_use a (registers_of c a) r' = Some u' \<longrightarrow> u' \<le> u))"
    unfolding FreeSomeRegister_best_def .
next
  assume "FreeSomeRegister c stage a = Some (freed, a')"
  then show "FreeSomeRegister_best c stage a = Some freed" by (rule FreeSomeRegister_returns_best)
qed

lemma plain_tests:
  "\<forall>r\<in>set [0, 1, 2].
     \<not> dies_at_current allocator_plain (registers_of GeneralRegisterT allocator_plain) kAtStart r \<and>
     \<not> in_several_registers allocator_plain (registers_of GeneralRegisterT allocator_plain) r"
  by (simp add: dies_at_current_def in_several_registers_def registers_of_def allocator_plain_def
      GetValue_def num_registers_def value_in_def)

lemma full_tests:
  "in_several_registers allocator_full (registers_of GeneralRegisterT allocator_full) 0"
  "\<not> dies_at_current allocator_full (registers_of GeneralRegisterT allocator_full) kAtEnd 0"
  "dies_at_current allocator_full (registers_of GeneralRegisterT allocator_full) kAtEnd 2"
  by (simp_all add: dies_at_current_def in_several_registers_def registers_of_def allocator_full_def
      GetValue_def num_registers_def)

theorem C8_register_to_free_witness:
  "sorted_list_of_set (used (registers_of GeneralRegisterT allocator_full)) = [] @ 0 # [1, 2] \<and>
   in_several_registers allocator_full (registers_of GeneralRegisterT allocator_full) 0 \<and>
   FreeSomeRegister_best GeneralRegisterT kAtEnd allocator_full = Some 0 \<and>
   sorted_list_of_set (used (registers_of GeneralRegisterT allocator_plain)) = [0, 1, 2] \<and>
   \<not> dies_at_current allocator_plain (registers_of GeneralRegisterT allocator_plain) kAtStart 0 \<and>
   \<not> in_several_registers allocator_plain (registers_of GeneralRegisterT allocator_plain) 0 \<and>
   \<not> dies_at_current allocator_plain (registers_of GeneralRegisterT allocator_plain) kAtStart 1 \<and>
   \<not> in_several_registers allocator_plain (registers_of GeneralRegisterT allocator_plain) 1 \<and>
   \<not> dies_at_current allocator_plain (registers_of GeneralRegisterT allocator_plain) kAtStart 2 \<and>
   \<not> in_several_registers allocator_plain (registers_of GeneralRegisterT allocator_plain) 2 \<and>
   FreeSomeRegister_best GeneralRegisterT kAtStart allocator_plain = Some 1 \<and>
   candidate_use allocator_plain (registers_of GeneralRegisterT allocator_plain) 1 = Some 40 \<and>
   candidate_use allocator_plain (registers_of GeneralRegisterT allocator_plain) 0 = Some 30 \<and>
   map_option fst (FreeSomeRegister GeneralRegisterT kAtStart allocator_plain) = Some 1"
proof -
  have 1: "sorted_list_of_set (used (registers_of GeneralRegisterT allocator_full)) = [] @ 0 # [1, 2]"
    by (simp add: used_full)
  have "FreeSomeRegister_best GeneralRegisterT kAtEnd allocator_full = Some 0"
    using C8_register_to_free [of GeneralRegisterT allocator_full "[]" 0 "[1, 2]" kAtEnd] 1 full_tests(1)
    by simp
  moreover have "\<forall>r\<in>set (sorted_list_of_set (used (registers_of GeneralRegisterT allocator_plain))).
      \<not> dies_at_current allocator_plain (registers_of GeneralRegisterT allocator_plain) kAtStart r \<and>
      \<not> in_several_registers allocator_plain (registers_of GeneralRegisterT allocator_plain) r"
    unfolding used_plain by (rule plain_tests)
  moreover have "candidate_use allocator_plain (registers_of GeneralRegisterT allocator_plain) 1 = Some 40"
    "candidate_use allocator_plain (registers_of GeneralRegisterT allocator_plain) 0 = Some 30"
    by (simp_all add: candidate_use_def registers_of_def allocator_plain_def GetValue_def value_in_def)
  ultimately show ?thesis using 1 full_tests(1) best_plain free_plain used_plain plain_tests by simp
qed

text \<open>
  C8 as stated fails: at the stage \<open>kAtEnd\<close> the value of register 2 dies at the current
  node, yet the register chosen is register 0, whose value does not die there and is
  chosen because it is also in register 1.
\<close>

theorem C8_preference_order_counterexample:
  "dies_at_current allocator_full (registers_of GeneralRegisterT allocator_full) kAtEnd 2 \<and>
   2 \<in> used (registers_of GeneralRegisterT allocator_full) \<and>
   FreeSomeRegister_best GeneralRegisterT kAtEnd allocator_full = Some 0 \<and>
   \<not> dies_at_current allocator_full (registers_of GeneralRegisterT allocator_full) kAtEnd 0"
  using full_tests best_full by (simp add: used_def registers_of_def allocator_full_def)

subsection \<open>The flush of a call\<close>

lemma registers_of_with [simp]:
  "registers_of c (with_registers c r a) = r"
  "nodes (with_registers c r a) = nodes a"
  "tagged (with_registers c r a) = tagged a"
  "untagged (with_registers c r a) = untagged a"
  "current_node (with_registers c r a) = current_node a"
  by (cases c; simp add: registers_of_def with_registers_def)+


lemma registers_of_nodes_update [simp]:
  "registers_of c (a\<lparr>nodes := f\<rparr>) = registers_of c a"
  by (cases c; simp add: registers_of_def)






subsection \<open>After the flush\<close>




lemma registers_of_fields [simp]:
  "registers_of c (a\<lparr>tagged := t\<rparr>) = registers_of c a"
  "registers_of c (a\<lparr>untagged := u\<rparr>) = registers_of c a"
  "registers_of c (a\<lparr>current_node := i\<rparr>) = registers_of c a"
  "registers_of c (a\<lparr>gap_moves := g\<rparr>) = registers_of c a"
  by (cases c; simp add: registers_of_def)+

































section \<open>Properties of LookupString\<close>










end
